theory Spec2Isabelle
  imports Complex_Main "HOL-Library.Extended_Nat"
begin

section \<open>Text layout of satori: a shallow embedding of \<open>src/text/index.ts\<close> and the measurer\<close>

text \<open>
  JavaScript numbers are modelled as \<open>real\<close> (exact arithmetic; rounding of doubles, NaN
  and the infinities are outside the model), indices and counts as \<open>nat\<close>, and a
  JavaScript string as a \<open>string\<close> whose elements stand for its UTF-16 code units, so that
  \<open>length\<close> is \<open>.length\<close>. A \<open>throw\<close> is a value: every function that can throw returns
  \<open>error + 'a\<close>.
\<close>

type_synonym num = real

datatype error = TypeError

subsection \<open>The measurer (\<open>genMeasurer\<close>)\<close>

text \<open>
  The font engine is an external collaborator: its three metric functions are the fields
  of a record. \<open>eng_measure e g fontSize letterSpacing\<close> is
  \<open>engine.measure(g, {fontSize, letterSpacing})\<close>.
\<close>

record engine =
  eng_measure :: "string \<Rightarrow> num \<Rightarrow> num \<Rightarrow> num"
  eng_baseline :: "string \<Rightarrow> num"
  eng_height :: "string \<Rightarrow> num"

text \<open>
  The parameters of \<open>genMeasurer\<close>, and two functions it uses that are defined elsewhere
  and are taken as parameters: \<open>segment(text, 'grapheme')\<close> of \<open>utils.js\<close>, and the
  conversion of a number to a string that JavaScript applies inside a template literal.
\<close>

record measurer =
  m_engine :: engine
  m_isImage :: "string \<Rightarrow> bool"
  m_segment :: "string \<Rightarrow> string list"
  m_toString :: "num \<Rightarrow> string"

text \<open>
  The cache is the \<open>Map\<close> of the closure, from strings to numbers. Its key is the
  template string \<open>`${grapheme}-${fontSize}-${letterSpacing}`\<close>: the grapheme, a hyphen, the
  font size as a string, a hyphen, the letter spacing as a string.
\<close>

type_synonym cache = "string \<rightharpoonup> num"

definition cacheKey :: "measurer \<Rightarrow> string \<Rightarrow> num \<Rightarrow> num \<Rightarrow> string" where
  "cacheKey m grapheme fontSize letterSpacing =
     grapheme @ ''-'' @ m_toString m fontSize @ ''-'' @ m_toString m letterSpacing"

definition measureGrapheme :: "measurer \<Rightarrow> string \<Rightarrow> num \<Rightarrow> num \<Rightarrow> cache \<Rightarrow> num \<times> cache" where
  "measureGrapheme m grapheme fontSize letterSpacing c =
     (let cacheKey' = cacheKey m grapheme fontSize letterSpacing
      in case c cacheKey' of
           Some cached \<Rightarrow> (cached, c)
         | None \<Rightarrow>
             (let width = eng_measure (m_engine m) grapheme fontSize letterSpacing
              in (width, c(cacheKey' \<mapsto> width))))"

text \<open>The \<open>for ... of\<close> loop of \<open>measureGraphemeArray\<close>, with the running \<open>width\<close>.\<close>

fun measureGraphemeArray_loop ::
  "measurer \<Rightarrow> string list \<Rightarrow> num \<Rightarrow> num \<Rightarrow> num \<Rightarrow> cache \<Rightarrow> num \<times> cache" where
  "measureGraphemeArray_loop m [] fontSize letterSpacing width c = (width, c)"
| "measureGraphemeArray_loop m (grapheme # graphemes) fontSize letterSpacing width c =
     (if m_isImage m grapheme
      then measureGraphemeArray_loop m graphemes fontSize letterSpacing (width + fontSize) c
      else (let (w, c') = measureGrapheme m grapheme fontSize letterSpacing c
            in measureGraphemeArray_loop m graphemes fontSize letterSpacing (width + w) c'))"

definition measureGraphemeArray ::
  "measurer \<Rightarrow> string list \<Rightarrow> num \<Rightarrow> num \<Rightarrow> cache \<Rightarrow> num \<times> cache" where
  "measureGraphemeArray m graphemes fontSize letterSpacing c =
     measureGraphemeArray_loop m graphemes fontSize letterSpacing 0 c"

definition measureText :: "measurer \<Rightarrow> string \<Rightarrow> num \<Rightarrow> num \<Rightarrow> cache \<Rightarrow> num \<times> cache" where
  "measureText m text fontSize letterSpacing c =
     measureGraphemeArray m (m_segment m text) fontSize letterSpacing c"

text \<open>
  Two notions for the case that the key does no harm. \<open>key_faithful\<close>: whenever two
  graphemes with their font sizes and letter spacings give the same key, the engine
  measures the same width for both. \<open>cache_ok\<close>: every entry of the cache holds the
  width that the engine measures for whatever gives its key.
\<close>

definition key_faithful :: "measurer \<Rightarrow> bool" where
  "key_faithful m \<longleftrightarrow>
     (\<forall>g f s g' f' s'. cacheKey m g f s = cacheKey m g' f' s' \<longrightarrow>
        eng_measure (m_engine m) g f s = eng_measure (m_engine m) g' f' s')"

definition cache_ok :: "measurer \<Rightarrow> cache \<Rightarrow> bool" where
  "cache_ok m c \<longleftrightarrow>
     (\<forall>g f s v. c (cacheKey m g f s) = Some v \<longrightarrow> v = eng_measure (m_engine m) g f s)"

text \<open>What one grapheme contributes to a width: the font size for an inline image.\<close>

definition graphemeWidth :: "measurer \<Rightarrow> num \<Rightarrow> num \<Rightarrow> string \<Rightarrow> num" where
  "graphemeWidth m fontSize letterSpacing g =
     (if m_isImage m g then fontSize else eng_measure (m_engine m) g fontSize letterSpacing)"

subsection \<open>Runs of one embedding level (\<open>getRuns\<close>)\<close>

text \<open>
  \<open>bidi.getEmbeddingLevels\<close> belongs to the library bidi-js. Its result is an object with a
  field \<open>levels\<close> (a \<open>Uint8Array\<close>); \<open>None\<close> stands for a missing object or field.
\<close>

record embedding_result =
  levels :: "nat list option"

record run =
  run_start :: nat
  run_end :: nat
  run_level :: nat

text \<open>The \<open>for (let i = 1; i < text.length; i++)\<close> loop and the final flush.\<close>

function getRuns_loop :: "nat list \<Rightarrow> nat \<Rightarrow> nat \<Rightarrow> nat \<Rightarrow> nat \<Rightarrow> run list \<Rightarrow> run list" where
  "getRuns_loop levelsArray n i currentLevel startIndex runs =
     (if i < n then
        (let lvl = levelsArray ! i in
         if lvl \<noteq> currentLevel
         then getRuns_loop levelsArray n (i + 1) lvl i
                (runs @ [\<lparr>run_start = startIndex, run_end = i, run_level = currentLevel\<rparr>])
         else getRuns_loop levelsArray n (i + 1) currentLevel startIndex runs)
      else runs @ [\<lparr>run_start = startIndex, run_end = n, run_level = currentLevel\<rparr>])"
  by pat_completeness auto
termination
  by (relation "measure (\<lambda>(levelsArray, n, i, currentLevel, startIndex, runs). n - i)") auto

declare getRuns_loop.simps [simp del]

definition fallbackRuns :: "string \<Rightarrow> run list" where
  "fallbackRuns text = [\<lparr>run_start = 0, run_end = length text, run_level = 0\<rparr>]"

definition getRuns :: "string \<Rightarrow> embedding_result option \<Rightarrow> run list" where
  "getRuns text embeddingResult =
     (case embeddingResult of
        None \<Rightarrow> fallbackRuns text
      | Some er \<Rightarrow>
          (case levels er of
             None \<Rightarrow> fallbackRuns text
           | Some levelsArray \<Rightarrow>
               if length levelsArray = 0 then fallbackRuns text
               else if length text \<noteq> length levelsArray then fallbackRuns text
               else getRuns_loop levelsArray (length text) 1 (levelsArray ! 0) 0 []))"

text \<open>
  A chain of runs from \<open>a\<close> to \<open>b\<close>: each run starts where the one before it ends, is not
  empty, has one level throughout, and a level other than that of the next run.
\<close>

fun runs_chain :: "nat list \<Rightarrow> nat \<Rightarrow> run list \<Rightarrow> nat \<Rightarrow> bool" where
  "runs_chain lv a [] b = (a = b)"
| "runs_chain lv a (r # rs) b =
     (run_start r = a \<and> a < run_end r
      \<and> (\<forall>j. a \<le> j \<and> j < run_end r \<longrightarrow> lv ! j = run_level r)
      \<and> (case rs of [] \<Rightarrow> True | r' # _ \<Rightarrow> run_level r' \<noteq> run_level r)
      \<and> runs_chain lv (run_end r) rs b)"

subsection \<open>JavaScript helpers\<close>

text \<open>\<open>xs[i]\<close> on an array: \<open>undefined\<close> (here \<open>None\<close>) outside the array.\<close>

definition js_index :: "'a list \<Rightarrow> nat \<Rightarrow> 'a option" where
  "js_index xs i = (if i < length xs then Some (xs ! i) else None)"

text \<open>\<open>s.slice(a, b)\<close> for indices that are not negative.\<close>

definition slice :: "string \<Rightarrow> nat \<Rightarrow> nat \<Rightarrow> string" where
  "slice s a b = take (b - a) (drop a s)"

subsection \<open>The context of one text node (\<open>buildTextNodes\<close>)\<close>

text \<open>
  The two functions of bidi-js that the module calls. They are not part of this
  repository, so they are parameters.
\<close>

record bidi =
  getEmbeddingLevels :: "string \<Rightarrow> embedding_result option"
  getReorderedIndices :: "string \<Rightarrow> embedding_result option \<Rightarrow> nat list"

datatype text_align = TA_left | TA_right | TA_center | TA_justify | TA_start | TA_end

datatype text_fit = TF_normal | TF_multiline

text \<open>
  What \<open>buildTextNodes\<close> reads from \<open>context\<close>, from \<open>parentStyle\<close> and from the result of
  \<open>preprocess\<close>. \<open>style_fontSize\<close> and \<open>style_letterSpacing\<close> are \<open>fontSize\<close> and
  \<open>letterSpacing\<close> of \<open>parentStyle\<close>; \<open>getEngine size\<close> is
  \<open>font.getEngine(size, lineHeight, parentStyle, locale)\<close>; \<open>lineLimit\<close> is a count or
  \<open>Infinity\<close>. The inline-image test \<open>graphemeImages && graphemeImages[s]\<close> is the
  \<open>m_isImage\<close> of the measurer, which is built from it.
\<close>

record text_node =
  words :: "string list"
  requiredBreaks :: "bool list"
  allowSoftWrap :: bool
  lineLimit :: enat
  style_fontSize :: num
  style_letterSpacing :: num
  textAlign :: text_align
  textFit :: text_fit
  maxFontSize :: "num option"
  getEngine :: "num \<Rightarrow> engine"
  the_measurer :: measurer
  the_bidi :: bidi

subsection \<open>Shaping one line (\<open>shapeLineWithBidiRuns\<close>)\<close>

record shaped_run_segment =
  srs_text :: string
  srs_width :: num
  srs_isRTL :: bool
  srs_isImage :: bool

record shaped_segment =
  seg_text :: string
  seg_x :: num
  seg_width :: num
  seg_isImage :: bool
  seg_isRTL :: bool

record placed_segment =
  ps_text :: string
  ps_x :: num
  ps_y :: num
  ps_width :: num
  ps_line :: nat
  ps_lineIndex :: nat
  ps_isImage :: bool

record line_result =
  lr_width :: num
  lr_lineHeight :: num
  lr_baseline :: num

text \<open>The body of \<open>runs.forEach\<close>: measure each run, track the largest ascent and descent.\<close>

fun shapeRuns ::
  "text_node \<Rightarrow> engine \<Rightarrow> string \<Rightarrow> run list \<Rightarrow> shaped_run_segment list \<times> num \<times> num \<Rightarrow> cache
   \<Rightarrow> (shaped_run_segment list \<times> num \<times> num) \<times> cache" where
  "shapeRuns node useEngine lineText [] acc c = (acc, c)"
| "shapeRuns node useEngine lineText (run # runs) (shapedRunSegments, maxAscent, maxDescent) c =
     (let runSubstring = slice lineText (run_start run) (run_end run);
          (runWidth, isImage, c') =
            (if m_isImage (the_measurer node) runSubstring
             then (style_fontSize node, True, c)
             else (let (w, c') = measureText (the_measurer node) runSubstring
                                   (style_fontSize node) (style_letterSpacing node) c
                   in (w, False, c')));
          asc = eng_baseline useEngine runSubstring;
          h = eng_height useEngine runSubstring;
          descent = h - asc
      in shapeRuns node useEngine lineText runs
           (shapedRunSegments @
              [\<lparr>srs_text = runSubstring, srs_width = runWidth,
                srs_isRTL = (run_level run mod 2 = 1), srs_isImage = isImage\<rparr>],
            (if asc > maxAscent then asc else maxAscent),
            (if descent > maxDescent then descent else maxDescent))
           c')"

text \<open>
  \<open>runMap\<close> is a JavaScript array written by index: a finite map from indices to values,
  where an index never written reads as \<open>undefined\<close>.
\<close>

fun buildRunMap :: "shaped_run_segment list \<Rightarrow> nat \<Rightarrow> nat \<Rightarrow> (nat \<rightharpoonup> nat) \<Rightarrow> (nat \<rightharpoonup> nat)" where
  "buildRunMap [] idx segStart runMap = runMap"
| "buildRunMap (seg # segs) idx segStart runMap =
     (let len = length (srs_text seg)
      in buildRunMap segs (idx + 1) (segStart + len)
           (fold (\<lambda>i rm. rm(i \<mapsto> idx)) [segStart ..< segStart + len] runMap))"

definition collectSubstring :: "string \<Rightarrow> nat list \<Rightarrow> nat \<Rightarrow> nat \<Rightarrow> nat \<Rightarrow> string" where
  "collectSubstring runText reorderedIndices start end' offsetInLine =
     concat (map (\<lambda>idx. if idx \<ge> offsetInLine \<and> idx < offsetInLine + length runText
                         then [runText ! (idx - offsetInLine)] else [])
                 (take (end' - start) (drop start reorderedIndices)))"

definition segStartForSegment :: "shaped_run_segment list \<Rightarrow> nat \<Rightarrow> nat" where
  "segStartForSegment shapedRunSegments segIndex =
     sum_list (map (\<lambda>seg. length (srs_text seg)) (take segIndex shapedRunSegments))"

text \<open>
  The object pushed to \<open>shapedSegmentsForLine\<close>, in the loop and in the final flush. Its
  first property reads \<open>shapedRunSegments[currentRunIndex].text\<close>, which throws a
  \<open>TypeError\<close> when \<open>shapedRunSegments[currentRunIndex]\<close> is \<open>undefined\<close>.
\<close>

definition visualSegment ::
  "text_node \<Rightarrow> shaped_run_segment list \<Rightarrow> nat list \<Rightarrow> nat option \<Rightarrow> nat \<Rightarrow> nat \<Rightarrow> cache
   \<Rightarrow> error + (shaped_segment \<times> cache)" where
  "visualSegment node shapedRunSegments reordered currentRunIndex runStart end' c =
     (case currentRunIndex of
        None \<Rightarrow> Inl TypeError
      | Some cri \<Rightarrow>
          (case js_index shapedRunSegments cri of
             None \<Rightarrow> Inl TypeError
           | Some srs \<Rightarrow>
               (let t = collectSubstring (srs_text srs) reordered runStart end'
                          (segStartForSegment shapedRunSegments cri);
                    (w, c') = measureText (the_measurer node) t
                                (style_fontSize node) (style_letterSpacing node) c
                in Inr (\<lparr>seg_text = t, seg_x = 0, seg_width = w,
                         seg_isImage = srs_isImage srs, seg_isRTL = srs_isRTL srs\<rparr>, c'))))"

text \<open>
  The pass over \<open>reordered\<close>: \<open>i\<close> is the loop index and the list argument is what is left
  of \<open>reordered\<close> from \<open>i\<close> on.
\<close>

fun reorder_loop ::
  "text_node \<Rightarrow> shaped_run_segment list \<Rightarrow> nat list \<Rightarrow> (nat \<rightharpoonup> nat) \<Rightarrow> nat \<Rightarrow> nat list
   \<Rightarrow> shaped_segment list \<times> nat option \<times> nat \<Rightarrow> cache
   \<Rightarrow> error + ((shaped_segment list \<times> nat option \<times> nat) \<times> cache)" where
  "reorder_loop node shapedRunSegments reordered runMap i [] st c = Inr (st, c)"
| "reorder_loop node shapedRunSegments reordered runMap i (rIndex # rest)
     (shapedSegmentsForLine, currentRunIndex, runStart) c =
     (let segIndex = runMap rIndex in
      if segIndex \<noteq> currentRunIndex then
        (case visualSegment node shapedRunSegments reordered currentRunIndex runStart i c of
           Inl e \<Rightarrow> Inl e
         | Inr (seg, c') \<Rightarrow>
             reorder_loop node shapedRunSegments reordered runMap (i + 1) rest
               (shapedSegmentsForLine @ [seg], segIndex, i) c')
      else reorder_loop node shapedRunSegments reordered runMap (i + 1) rest
             (shapedSegmentsForLine, currentRunIndex, runStart) c)"

text \<open>\<open>seg.x = cursorX; cursorX += seg.width\<close> for each segment in turn.\<close>

fun placeSegments :: "shaped_segment list \<Rightarrow> num \<Rightarrow> shaped_segment list \<times> num" where
  "placeSegments [] cursorX = ([], cursorX)"
| "placeSegments (seg # segs) cursorX =
     (let (segs', cursorX') = placeSegments segs (cursorX + seg_width seg)
      in (seg\<lparr>seg_x := cursorX\<rparr> # segs', cursorX'))"

definition recordSegments :: "shaped_segment list \<Rightarrow> num \<Rightarrow> nat \<Rightarrow> placed_segment list" where
  "recordSegments segs currentHeight currentLine =
     map (\<lambda>(seg, lineIndex).
            \<lparr>ps_text = seg_text seg, ps_x = seg_x seg, ps_y = currentHeight,
             ps_width = seg_width seg, ps_line = currentLine, ps_lineIndex = lineIndex,
             ps_isImage = seg_isImage seg\<rparr>)
         (zip segs [0 ..< length segs])"

text \<open>
  \<open>shapeLineWithBidiRuns\<close> pushes to the \<open>placedSegments\<close> of the closure: the list is an
  argument and the longer list is returned with the line's measurements.
\<close>

definition shapeLineWithBidiRuns ::
  "text_node \<Rightarrow> string list \<Rightarrow> num \<Rightarrow> nat \<Rightarrow> num \<Rightarrow> num \<Rightarrow> engine \<Rightarrow> placed_segment list \<Rightarrow> cache
   \<Rightarrow> error + ((line_result \<times> placed_segment list) \<times> cache)" where
  "shapeLineWithBidiRuns node lineWords xOffset currentLine currentHeight containerWidth
     useEngine placed c =
     (let lineText = concat lineWords;
          embeddingLevels = getEmbeddingLevels (the_bidi node) lineText;
          runs = getRuns lineText embeddingLevels;
          ((shapedRunSegments, maxAscent, maxDescent), c1) =
             shapeRuns node useEngine lineText runs ([], 0, 0) c;
          reordered = getReorderedIndices (the_bidi node) lineText embeddingLevels;
          runMap = buildRunMap shapedRunSegments 0 0 Map.empty;
          currentRunIndex = (case js_index reordered 0 of None \<Rightarrow> None | Some r \<Rightarrow> runMap r)
      in case reorder_loop node shapedRunSegments reordered runMap 0 reordered
                ([], currentRunIndex, 0) c1 of
           Inl e \<Rightarrow> Inl e
         | Inr ((segs, currentRunIndex', runStart), c2) \<Rightarrow>
             (case visualSegment node shapedRunSegments reordered currentRunIndex' runStart
                     (length reordered) c2 of
                Inl e \<Rightarrow> Inl e
              | Inr (seg, c3) \<Rightarrow>
                  (let (shapedSegmentsForLine, cursorX) = placeSegments (segs @ [seg]) xOffset;
                       lineHeight = maxAscent + maxDescent
                   in Inr ((\<lparr>lr_width = cursorX - xOffset, lr_lineHeight = lineHeight,
                             lr_baseline = maxAscent\<rparr>,
                            placed @ recordSegments shapedSegmentsForLine currentHeight currentLine),
                           c3))))"

subsection \<open>Breaking the words into lines (\<open>flow\<close>)\<close>

text \<open>
  The four arrays of the closure that \<open>flow\<close> resets and fills, and the local variables
  of \<open>flow\<close> on top of them.
\<close>

record layout =
  lineWidths :: "num list"
  baselines :: "num list"
  lineSegmentNumber :: "nat list"
  placedSegments :: "placed_segment list"

record flow_state = layout +
  lines :: nat
  maxWidth :: num
  totalHeight :: num
  currentLineWords :: "string list"
  currentLineWidth :: num
  currentLineAscent :: num
  currentLineBaseline :: num

record size =
  sz_width :: num
  sz_height :: num

definition initialFlowState :: flow_state where
  "initialFlowState =
     \<lparr>lineWidths = [], baselines = [], lineSegmentNumber = [], placedSegments = [],
      lines = 0, maxWidth = 0, totalHeight = 0, currentLineWords = [],
      currentLineWidth = 0, currentLineAscent = 0, currentLineBaseline = 0\<rparr>"

definition measureWord :: "text_node \<Rightarrow> num \<Rightarrow> num \<Rightarrow> string \<Rightarrow> cache \<Rightarrow> num \<times> cache" where
  "measureWord node fontSize letterSpacing word c =
     (if m_isImage (the_measurer node) word then (fontSize, c)
      else measureText (the_measurer node) word fontSize letterSpacing c)"

text \<open>
  \<open>',.!?:-@)>]}%#'.indexOf(word[0]) < 0\<close>. For the empty word, \<open>word[0]\<close> is
  \<open>undefined\<close>, \<open>indexOf\<close> searches for the string \<open>"undefined"\<close> and finds nothing.
\<close>

definition allowedToPutAtBeginning :: "string \<Rightarrow> bool" where
  "allowedToPutAtBeginning word =
     (case word of [] \<Rightarrow> True | ch # _ \<Rightarrow> ch \<notin> set '',.!?:-@)>]}%#'')"

text \<open>\<open>requiredBreaks[i]\<close>, which is \<open>undefined\<close> (falsy) beyond the array.\<close>

definition forcedBreakAt :: "text_node \<Rightarrow> nat \<Rightarrow> bool" where
  "forcedBreakAt node i = (case js_index (requiredBreaks node) i of None \<Rightarrow> False | Some b \<Rightarrow> b)"

definition willWrap :: "text_node \<Rightarrow> num \<Rightarrow> nat \<Rightarrow> string \<Rightarrow> num \<Rightarrow> num \<Rightarrow> bool" where
  "willWrap node containerWidth i word w currentLineWidth' \<longleftrightarrow>
     i \<noteq> 0 \<and> allowedToPutAtBeginning word \<and> currentLineWidth' + w > containerWidth
     \<and> allowSoftWrap node"

text \<open>
  Finalising the line so far: shape it, record its width, baseline and word count, add
  its height. The source has this block twice, in the loop and in the last flush.
\<close>

definition finalizeLine ::
  "text_node \<Rightarrow> num \<Rightarrow> engine \<Rightarrow> flow_state \<Rightarrow> cache \<Rightarrow> error + (flow_state \<times> cache)" where
  "finalizeLine node containerWidth useEngine st c =
     (case shapeLineWithBidiRuns node (currentLineWords st) 0 (lines st) (totalHeight st)
             containerWidth useEngine (placedSegments st) c of
        Inl e \<Rightarrow> Inl e
      | Inr ((lineResult, placed), c') \<Rightarrow>
          Inr (st\<lparr>placedSegments := placed,
                   lineWidths := lineWidths st @ [lr_width lineResult],
                   baselines := baselines st @ [lr_baseline lineResult],
                   lineSegmentNumber := lineSegmentNumber st @ [length (currentLineWords st)],
                   totalHeight := totalHeight st + lr_lineHeight lineResult,
                   maxWidth := max (maxWidth st) (lr_width lineResult),
                   lines := lines st + 1\<rparr>, c'))"

text \<open>One turn of the \<open>while\<close> loop, for the word at index \<open>i\<close>.\<close>

definition flow_step ::
  "text_node \<Rightarrow> num \<Rightarrow> num \<Rightarrow> num \<Rightarrow> engine \<Rightarrow> nat \<Rightarrow> string \<Rightarrow> flow_state \<Rightarrow> cache
   \<Rightarrow> error + (flow_state \<times> cache)" where
  "flow_step node containerWidth fontSize letterSpacing useEngine i word st c =
     (let forcedBreak = forcedBreakAt node i;
          (w, c1) = measureWord node fontSize letterSpacing word c
      in if forcedBreak \<or> willWrap node containerWidth i word w (currentLineWidth st) then
           (case finalizeLine node containerWidth useEngine st c1 of
              Inl e \<Rightarrow> Inl e
            | Inr (st1, c2) \<Rightarrow>
                (let st2 = st1\<lparr>currentLineWords := (if forcedBreak then [] else [word]),
                               currentLineWidth := (if forcedBreak then 0 else w)\<rparr>
                 in if \<not> forcedBreak \<and> w > 0 then
                      (let asc = eng_baseline useEngine word;
                           ascent = (if asc > currentLineAscent st2 then asc
                                     else currentLineAscent st2)
                       in Inr (st2\<lparr>currentLineAscent := ascent,
                                    currentLineBaseline := ascent\<rparr>, c2))
                    else Inr (st2, c2)))
         else Inr (st\<lparr>currentLineWords := currentLineWords st @ [word],
                       currentLineWidth := currentLineWidth st + w\<rparr>, c1))"

text \<open>
  \<open>while (i < words.length && lines < lineLimit)\<close>: the list argument is what is left of
  \<open>words\<close> from index \<open>i\<close> on.
\<close>

fun flow_loop ::
  "text_node \<Rightarrow> num \<Rightarrow> num \<Rightarrow> num \<Rightarrow> engine \<Rightarrow> nat \<Rightarrow> string list \<Rightarrow> flow_state \<Rightarrow> cache
   \<Rightarrow> error + (flow_state \<times> cache)" where
  "flow_loop node containerWidth fontSize letterSpacing useEngine i [] st c = Inr (st, c)"
| "flow_loop node containerWidth fontSize letterSpacing useEngine i (word # rest) st c =
     (if enat (lines st) < lineLimit node then
        (case flow_step node containerWidth fontSize letterSpacing useEngine i word st c of
           Inl e \<Rightarrow> Inl e
         | Inr (st', c') \<Rightarrow>
             flow_loop node containerWidth fontSize letterSpacing useEngine (i + 1) rest st' c')
      else Inr (st, c))"

text \<open>The flush of the last line after the loop.\<close>

definition flow_flush ::
  "text_node \<Rightarrow> num \<Rightarrow> engine \<Rightarrow> flow_state \<Rightarrow> cache \<Rightarrow> error + (flow_state \<times> cache)" where
  "flow_flush node containerWidth useEngine st c =
     (if currentLineWords st \<noteq> [] \<and> enat (lines st) < lineLimit node
      then finalizeLine node containerWidth useEngine st c
      else Inr (st, c))"

text \<open>
  \<open>flow\<close> returns \<open>{width, height}\<close> and leaves the four arrays in the closure; here it
  returns the arrays as well.
\<close>

definition flow ::
  "text_node \<Rightarrow> num \<Rightarrow> num \<Rightarrow> num \<Rightarrow> engine \<Rightarrow> cache \<Rightarrow> error + ((size \<times> layout) \<times> cache)" where
  "flow node containerWidth fontSize letterSpacing useEngine c =
     (case flow_loop node containerWidth fontSize letterSpacing useEngine 0 (words node)
             initialFlowState c of
        Inl e \<Rightarrow> Inl e
      | Inr (st, c1) \<Rightarrow>
          (case flow_flush node containerWidth useEngine st c1 of
             Inl e \<Rightarrow> Inl e
           | Inr (st', c2) \<Rightarrow>
               Inr ((\<lparr>sz_width = maxWidth st', sz_height = totalHeight st'\<rparr>,
                     layout.truncate st'), c2)))"

subsection \<open>The measure function of the text container (\<open>setMeasureFunc\<close>)\<close>

text \<open>
  The variables of the closure that outlive a call of the measure function: the four
  arrays, \<open>finalFontSize\<close>, \<open>engine\<close> and \<open>measuredTextSize\<close>.
\<close>

record node_state = layout +
  finalFontSize :: num
  currentEngine :: engine
  measuredTextSize :: size

definition storeLayout :: "layout \<Rightarrow> node_state \<Rightarrow> node_state" where
  "storeLayout lay ns =
     ns\<lparr>lineWidths := lineWidths lay, baselines := baselines lay,
        lineSegmentNumber := lineSegmentNumber lay, placedSegments := placedSegments lay\<rparr>"

text \<open>
  The binary search: \<open>while (testMinFontSize <= testMaxFontSize)\<close>. Every candidate runs
  \<open>flow\<close>. The arrays that a candidate's \<open>flow\<close> leaves in the closure are reset by the
  next \<open>flow\<close>, and the measure function always runs \<open>flow\<close> once more after the search,
  so the search returns the best size and the cache only.
\<close>

function fitLoop ::
  "text_node \<Rightarrow> num \<Rightarrow> num \<Rightarrow> num \<Rightarrow> num \<Rightarrow> num \<Rightarrow> cache \<Rightarrow> error + (num \<times> cache)" where
  "fitLoop node cw ch testMinFontSize testMaxFontSize bestFitFontSize c =
     (if testMinFontSize \<le> testMaxFontSize then
        (let testFontSize = of_int \<lfloor>(testMinFontSize + testMaxFontSize) / 2\<rfloor>;
             useEngine = getEngine node testFontSize
         in case flow node cw testFontSize (style_letterSpacing node) useEngine c of
              Inl e \<Rightarrow> Inl e
            | Inr ((sz, lay), c') \<Rightarrow>
                if sz_height sz \<le> ch
                then fitLoop node cw ch (testFontSize + 1) testMaxFontSize testFontSize c'
                else fitLoop node cw ch testMinFontSize (testFontSize - 1) bestFitFontSize c')
      else Inr (bestFitFontSize, c))"
  by pat_completeness auto
termination
  by (relation "measure (\<lambda>(node, cw, ch, lo, hi, best, c). nat (\<lfloor>hi\<rfloor> - \<lfloor>lo\<rfloor> + 1))")
     (auto intro!: floor_mono)

declare fitLoop.simps [simp del]

text \<open>\<open>maxFontSize || 120\<close>: the default also replaces a \<open>maxFontSize\<close> of 0.\<close>

definition initialMaxFontSize :: "text_node \<Rightarrow> num" where
  "initialMaxFontSize node =
     (case maxFontSize node of None \<Rightarrow> 120 | Some m \<Rightarrow> if m = 0 then 120 else m)"

definition reportSize :: "size \<Rightarrow> size" where
  "reportSize sz = \<lparr>sz_width = of_int \<lceil>sz_width sz\<rceil>, sz_height = sz_height sz\<rparr>"

definition measureFunc ::
  "text_node \<Rightarrow> num \<Rightarrow> num \<Rightarrow> node_state \<Rightarrow> cache \<Rightarrow> error + ((size \<times> node_state) \<times> cache)" where
  "measureFunc node cw ch ns c =
     (if textFit node = TF_multiline then
        (case fitLoop node cw ch 10 (initialMaxFontSize node) 10 c of
           Inl e \<Rightarrow> Inl e
         | Inr (bestFitFontSize, c1) \<Rightarrow>
             (let finalEngine = getEngine node bestFitFontSize
              in case flow node cw bestFitFontSize (style_letterSpacing node) finalEngine c1 of
                   Inl e \<Rightarrow> Inl e
                 | Inr ((sz, lay'), c2) \<Rightarrow>
                     Inr ((reportSize sz,
                           (storeLayout lay' ns)\<lparr>finalFontSize := bestFitFontSize,
                                                 currentEngine := finalEngine,
                                                 measuredTextSize := reportSize sz\<rparr>),
                          c2)))
      else
        (let useEngine = getEngine node (finalFontSize ns)
         in case flow node cw (finalFontSize ns) (style_letterSpacing node) useEngine c of
              Inl e \<Rightarrow> Inl e
            | Inr ((sz, lay'), c1) \<Rightarrow>
                Inr ((reportSize sz,
                      (storeLayout lay' ns)\<lparr>currentEngine := useEngine,
                                            measuredTextSize := reportSize sz\<rparr>),
                     c1)))"

subsection \<open>The horizontal offset of a placed segment (render phase of \<open>buildTextNodes\<close>)\<close>

text \<open>
  \<open>lineWidths[line] && ...\<close>: the width of the line is falsy when the line has no record
  or when it is 0.
\<close>

definition alignedLeftOffset :: "text_align \<Rightarrow> num \<Rightarrow> num list \<Rightarrow> placed_segment \<Rightarrow> num" where
  "alignedLeftOffset align containerWidth lineWidths' seg =
     (let line = ps_line seg;
          leftOffset = ps_x seg;
          truthy = (case js_index lineWidths' line of None \<Rightarrow> False | Some w \<Rightarrow> w \<noteq> 0)
      in if truthy \<and> (align = TA_right \<or> align = TA_end)
         then leftOffset + (containerWidth - lineWidths' ! line)
         else if truthy \<and> align = TA_center
         then leftOffset + (containerWidth - lineWidths' ! line) / 2
         else leftOffset)"

subsection \<open>Notions for the proofs\<close>

text \<open>
  The height that \<open>flow\<close> reports at a font size, with the engine of that size, as the
  binary search asks for it, when it starts from the cache \<open>c\<close>.
\<close>

definition measuredHeight :: "text_node \<Rightarrow> num \<Rightarrow> num \<Rightarrow> cache \<Rightarrow> error + num" where
  "measuredHeight node cw fontSize c =
     map_sum id (sz_height \<circ> fst \<circ> fst)
       (flow node cw fontSize (style_letterSpacing node) (getEngine node fontSize) c)"

text \<open>
  A function of the cache replays: when it returns from a cache, the cache it leaves
  extends the one it started from, and from the cache it leaves, or any cache that
  extends that one, it returns the same value and leaves the cache as it is. Every
  width it needs is then in the cache, under the key it was stored with.
\<close>

definition replays :: "(cache \<Rightarrow> error + ('a \<times> cache)) \<Rightarrow> bool" where
  "replays f \<longleftrightarrow>
     (\<forall>c x c1. f c = Inr (x, c1) \<longrightarrow>
        c \<subseteq>\<^sub>m c1 \<and> (\<forall>c'. c1 \<subseteq>\<^sub>m c' \<longrightarrow> f c' = Inr (x, c')))"

text \<open>
  At the font size, \<open>flow\<close> returns from every cache that extends \<open>c\<close>, without adding to
  it, and reports a height that fits the available height \<open>ch\<close>, or one that exceeds it.
\<close>

definition fitsFrom :: "text_node \<Rightarrow> num \<Rightarrow> num \<Rightarrow> cache \<Rightarrow> num \<Rightarrow> bool" where
  "fitsFrom node cw ch c fontSize \<longleftrightarrow>
     (\<forall>c'. c \<subseteq>\<^sub>m c' \<longrightarrow>
        (\<exists>sz lay. flow node cw fontSize (style_letterSpacing node) (getEngine node fontSize) c'
                     = Inr ((sz, lay), c') \<and> sz_height sz \<le> ch))"

definition exceedsFrom :: "text_node \<Rightarrow> num \<Rightarrow> num \<Rightarrow> cache \<Rightarrow> num \<Rightarrow> bool" where
  "exceedsFrom node cw ch c fontSize \<longleftrightarrow>
     (\<forall>c'. c \<subseteq>\<^sub>m c' \<longrightarrow>
        (\<exists>sz lay. flow node cw fontSize (style_letterSpacing node) (getEngine node fontSize) c'
                     = Inr ((sz, lay), c') \<and> ch < sz_height sz))"

text \<open>
  The invariant of the loop of \<open>flow\<close>: the three arrays have one entry for each
  completed line, no more lines than the limit are completed, and every placed segment
  lies on a completed line.
\<close>

definition flow_inv :: "text_node \<Rightarrow> flow_state \<Rightarrow> bool" where
  "flow_inv node st \<longleftrightarrow>
     enat (lines st) \<le> lineLimit node
     \<and> length (lineWidths st) = lines st \<and> length (baselines st) = lines st
     \<and> length (lineSegmentNumber st) = lines st
     \<and> (\<forall>seg \<in> set (placedSegments st). ps_line seg < lines st)"

text \<open>
  The condition for a line break in the words of the specification, where the word must
  not be the first word of the current line, that is, the line so far has words. It is
  compared with \<open>willWrap\<close>, which asks for \<open>i \<noteq> 0\<close>.
\<close>

definition claimed_lineBreak ::
  "text_node \<Rightarrow> num \<Rightarrow> nat \<Rightarrow> string \<Rightarrow> num \<Rightarrow> string list \<Rightarrow> num \<Rightarrow> bool" where
  "claimed_lineBreak node containerWidth i word w lineWords lineWidth \<longleftrightarrow>
     forcedBreakAt node i
     \<or> (lineWords \<noteq> []
        \<and> (case word of [] \<Rightarrow> True | ch # _ \<Rightarrow> ch \<notin> set '',.!?:-@)>]}%#'')
        \<and> lineWidth + w > containerWidth \<and> allowSoftWrap node)"

subsection \<open>Example inputs\<close>

text \<open>
  A bidi analysis for text that is left-to-right throughout: every level is 0 and the
  visual order is the logical order. An engine in which every grapheme is as wide as the
  font size plus the letter spacing, a measurer without inline images that segments a
  text into its single characters, and a text node over them.
\<close>

definition ltr_bidi :: bidi where
  "ltr_bidi =
     \<lparr>getEmbeddingLevels = (\<lambda>t. Some \<lparr>levels = Some (replicate (length t) 0)\<rparr>),
      getReorderedIndices = (\<lambda>t e. [0 ..< length t])\<rparr>"

definition example_engine :: "num \<Rightarrow> engine" where
  "example_engine size' =
     \<lparr>eng_measure = (\<lambda>g f s. f + s), eng_baseline = (\<lambda>t. size'),
      eng_height = (\<lambda>t. size' + 2)\<rparr>"

text \<open>
  Numbers as strings, for the whole numbers of the examples: the decimal digits, after a
  minus sign for a negative number, as JavaScript writes them.
\<close>

function decimal :: "nat \<Rightarrow> string" where
  "decimal n =
     (if n < 10 then [''0123456789'' ! n]
      else decimal (n div 10) @ [''0123456789'' ! (n mod 10)])"
  by pat_completeness auto
termination
  by (relation "measure (\<lambda>n. n)") auto

declare decimal.simps [simp del]

definition example_toString :: "num \<Rightarrow> string" where
  "example_toString x =
     (if x < 0 then ''-'' @ decimal (nat (- \<lfloor>x\<rfloor>)) else decimal (nat \<lfloor>x\<rfloor>))"

definition example_measurer :: measurer where
  "example_measurer =
     \<lparr>m_engine = example_engine 16, m_isImage = (\<lambda>g. False), m_segment = map (\<lambda>ch. [ch]),
      m_toString = example_toString\<rparr>"

text \<open>
  A measurer for which a whole text is one grapheme cluster, as the segmentation by
  grapheme clusters makes one cluster of a prepending character followed by a hyphen.
\<close>

definition cluster_measurer :: measurer where
  "cluster_measurer = example_measurer\<lparr>m_segment := (\<lambda>t. [t])\<rparr>"

definition example_node :: "string list \<Rightarrow> bool list \<Rightarrow> text_node" where
  "example_node ws rb =
     \<lparr>words = ws, requiredBreaks = rb, allowSoftWrap = True, lineLimit = \<infinity>,
      style_fontSize = 16, style_letterSpacing = 0, textAlign = TA_center,
      textFit = TF_normal, maxFontSize = None, getEngine = example_engine,
      the_measurer = example_measurer, the_bidi = ltr_bidi\<rparr>"

text \<open>
  The closure before the first call of the measure function, a node that fits its font
  size, a node that stops after one line, and a node whose letter spacing makes every
  grapheme 0 wide.
\<close>

definition example_state :: node_state where
  "example_state =
     \<lparr>lineWidths = [], baselines = [], lineSegmentNumber = [], placedSegments = [],
      finalFontSize = 16, currentEngine = example_engine 16,
      measuredTextSize = \<lparr>sz_width = 0, sz_height = 0\<rparr>\<rparr>"

definition fit_node :: "num \<Rightarrow> text_node" where
  "fit_node maxSize = (example_node [''a''] [])\<lparr>textFit := TF_multiline, maxFontSize := Some maxSize\<rparr>"

definition one_line_node :: text_node where
  "one_line_node = (example_node [''ab '', ''c''] [])\<lparr>lineLimit := 1\<rparr>"

definition zero_width_node :: text_node where
  "zero_width_node = (example_node [''a''] [])\<lparr>style_letterSpacing := - 16\<rparr>"

lemmas example_defs =
  example_node_def example_measurer_def example_engine_def ltr_bidi_def example_state_def
  fit_node_def one_line_node_def zero_width_node_def example_toString_def decimal.simps
  cluster_measurer_def

lemmas flow_defs =
  flow_def initialFlowState_def flow_step_def flow_flush_def forcedBreakAt_def js_index_def
  measureWord_def measureText_def measureGraphemeArray_def measureGrapheme_def cacheKey_def
  willWrap_def allowedToPutAtBeginning_def finalizeLine_def shapeLineWithBidiRuns_def
  getRuns_def fallbackRuns_def getRuns_loop.simps slice_def Let_def visualSegment_def
  collectSubstring_def segStartForSegment_def recordSegments_def layout.defs

section \<open>The measurer\<close>

lemma measureGrapheme_ok:
  assumes "key_faithful m" "cache_ok m c"
  shows "fst (measureGrapheme m g f s c) = eng_measure (m_engine m) g f s"
    and "cache_ok m (snd (measureGrapheme m g f s c))"
proof -
  let ?k = "cacheKey m g f s"
  let ?w = "eng_measure (m_engine m) g f s"
  show "fst (measureGrapheme m g f s c) = ?w"
  proof (cases "c ?k")
    case None
    then show ?thesis by (simp add: measureGrapheme_def Let_def)
  next
    case (Some v)
    with assms(2) have "v = ?w" unfolding cache_ok_def by blast
    with Some show ?thesis by (simp add: measureGrapheme_def Let_def)
  qed
  show "cache_ok m (snd (measureGrapheme m g f s c))"
  proof (cases "c ?k")
    case (Some v)
    with assms(2) show ?thesis by (simp add: measureGrapheme_def Let_def)
  next
    case None
    have "cache_ok m (c(?k \<mapsto> ?w))"
      unfolding cache_ok_def
    proof (intro allI impI)
      fix g' f' s' v assume a: "(c(?k \<mapsto> ?w)) (cacheKey m g' f' s') = Some v"
      show "v = eng_measure (m_engine m) g' f' s'"
      proof (cases "cacheKey m g' f' s' = ?k")
        case True
        with a have "v = ?w" by simp
        moreover from assms(1) True have "eng_measure (m_engine m) g' f' s' = ?w"
          unfolding key_faithful_def by blast
        ultimately show ?thesis by simp
      next
        case False
        with a have "c (cacheKey m g' f' s') = Some v" by simp
        with assms(2) show ?thesis unfolding cache_ok_def by blast
      qed
    qed
    with None show ?thesis by (simp add: measureGrapheme_def Let_def)
  qed
qed

lemma measureGraphemeArray_loop_ok:
  "key_faithful m \<Longrightarrow> cache_ok m c \<Longrightarrow>
     fst (measureGraphemeArray_loop m gs f s w c) = w + sum_list (map (graphemeWidth m f s) gs)
   \<and> cache_ok m (snd (measureGraphemeArray_loop m gs f s w c))"
proof (induction gs arbitrary: w c)
  case Nil
  then show ?case by simp
next
  case (Cons g gs)
  show ?case
  proof (cases "m_isImage m g")
    case True
    with Cons show ?thesis by (simp add: graphemeWidth_def)
  next
    case False
    obtain v c' where mg: "measureGrapheme m g f s c = (v, c')"
      by (cases "measureGrapheme m g f s c")
    from measureGrapheme_ok[OF Cons.prems, of g f s] mg
    have v: "v = eng_measure (m_engine m) g f s" and ok: "cache_ok m c'"
      by simp_all
    from Cons.IH[OF Cons.prems(1) ok, of "w + v"] False mg v show ?thesis
      by (simp add: graphemeWidth_def)
  qed
qed

text \<open>
  When no two keys that the engine measures differently fall together, \<open>measureText\<close> is
  the sum of the widths of the graphemes, from every cache that holds the engine's
  widths, the empty one among them.
\<close>

lemma measureText_faithful:
  assumes "key_faithful m" "cache_ok m c"
  shows "fst (measureText m t f s c) =
     (\<Sum>g\<leftarrow>m_segment m t. if m_isImage m g then f else eng_measure (m_engine m) g f s)"
  using measureGraphemeArray_loop_ok[OF assms, of "m_segment m t" f s 0]
  by (simp add: measureText_def measureGraphemeArray_def graphemeWidth_def[abs_def])

text \<open>
  Claim C2 says that for every text, font size and letter spacing \<open>measureText\<close> returns
  the sum of the widths that the engine measures for the graphemes of the text. The code
  does otherwise when two keys of the cache fall together. At font size -16 the grapheme
  \<open>a\<close> is stored under the key \<open>a--16-0\<close>; at font size 16 the grapheme \<open>a-\<close> has
  the same key, and \<open>measureText\<close> returns the width -16 stored for the other grapheme
  where the engine measures 16. Here \<open>a\<close> stands for a character that the segmentation
  joins with a hyphen after it into one grapheme cluster.
\<close>

theorem measureText_key_collision:
  "cacheKey cluster_measurer ''a'' (- 16) 0 = ''a--16-0''
   \<and> cacheKey cluster_measurer ''a-'' 16 0 = ''a--16-0''
   \<and> measureText cluster_measurer ''a'' (- 16) 0 Map.empty = (- 16, [''a--16-0'' \<mapsto> - 16])
   \<and> measureText cluster_measurer ''a-'' 16 0 [''a--16-0'' \<mapsto> - 16]
        = (- 16, [''a--16-0'' \<mapsto> - 16])
   \<and> m_segment cluster_measurer ''a-'' = [''a-'']
   \<and> m_isImage cluster_measurer ''a-'' = False
   \<and> eng_measure (m_engine cluster_measurer) ''a-'' 16 0 = 16"
  by (simp add: measureText_def measureGraphemeArray_def measureGrapheme_def cacheKey_def
      example_defs)

section \<open>Runs\<close>

text \<open>
  The fallback of \<open>getRuns\<close>: when the embedding-levels result is missing or empty, or its
  level array is not as long as the line, the result is exactly the one run from 0 to
  the length of the line at level 0.
\<close>

lemma getRuns_fallback_single_run:
  "getRuns t None = [\<lparr>run_start = 0, run_end = length t, run_level = 0\<rparr>]
   \<and> getRuns t (Some \<lparr>levels = None\<rparr>) = [\<lparr>run_start = 0, run_end = length t, run_level = 0\<rparr>]
   \<and> (ls = [] \<or> length ls \<noteq> length t \<longrightarrow>
        getRuns t (Some \<lparr>levels = Some ls\<rparr>)
          = [\<lparr>run_start = 0, run_end = length t, run_level = 0\<rparr>])"
  by (auto simp: getRuns_def fallbackRuns_def)

lemma runs_chain_snoc:
  "runs_chain lv a rs b \<Longrightarrow> (rs \<noteq> [] \<Longrightarrow> run_level (last rs) \<noteq> l) \<Longrightarrow> b < e \<Longrightarrow>
   (\<forall>j. b \<le> j \<and> j < e \<longrightarrow> lv ! j = l) \<Longrightarrow>
   runs_chain lv a (rs @ [\<lparr>run_start = b, run_end = e, run_level = l\<rparr>]) e"
proof (induction rs arbitrary: a)
  case Nil
  then show ?case by simp
next
  case (Cons r rs)
  then show ?case by (cases rs) (auto split: if_splits)
qed

lemma getRuns_loop_chain:
  "runs_chain lv 0 runs startIndex \<Longrightarrow> (runs \<noteq> [] \<Longrightarrow> run_level (last runs) \<noteq> cur) \<Longrightarrow>
   startIndex < i \<Longrightarrow> i \<le> n \<Longrightarrow> (\<forall>j. startIndex \<le> j \<and> j < i \<longrightarrow> lv ! j = cur) \<Longrightarrow>
   runs_chain lv 0 (getRuns_loop lv n i cur startIndex runs) n
   \<and> getRuns_loop lv n i cur startIndex runs \<noteq> []"
proof (induction lv n i cur startIndex runs rule: getRuns_loop.induct)
  case (1 lv n i cur startIndex runs)
  show ?case
  proof (cases "i < n")
    case False
    with 1 have "i = n" by simp
    with 1 False show ?thesis
      by (subst getRuns_loop.simps, subst (2) getRuns_loop.simps) (simp add: runs_chain_snoc)
  next
    case True
    show ?thesis
    proof (cases "lv ! i \<noteq> cur")
      case neq: True
      let ?runs = "runs @ [\<lparr>run_start = startIndex, run_end = i, run_level = cur\<rparr>]"
      have ch: "runs_chain lv 0 ?runs i"
        using 1 by (intro runs_chain_snoc) auto
      have "runs_chain lv 0 (getRuns_loop lv n (i + 1) (lv ! i) i ?runs) n
        \<and> getRuns_loop lv n (i + 1) (lv ! i) i ?runs \<noteq> []"
        using True neq ch by (intro "1.IH"(1)) (auto simp: le_less Suc_le_eq less_Suc_eq)
      with True neq show ?thesis
        by (subst getRuns_loop.simps, subst (2) getRuns_loop.simps) (simp add: Let_def)
    next
      case eq: False
      have "runs_chain lv 0 (getRuns_loop lv n (i + 1) cur startIndex runs) n
        \<and> getRuns_loop lv n (i + 1) cur startIndex runs \<noteq> []"
        using True eq 1(3-) by (intro "1.IH"(2)) (auto simp: less_Suc_eq)
      with True eq show ?thesis
        by (subst getRuns_loop.simps, subst (2) getRuns_loop.simps) (simp add: Let_def)
    qed
  qed
qed

lemma runs_chain_hd_last:
  "runs_chain lv a rs b \<Longrightarrow> rs \<noteq> [] \<Longrightarrow> run_start (hd rs) = a \<and> run_end (last rs) = b"
  by (induction rs arbitrary: a) (auto split: list.splits)

lemma runs_chain_member:
  "runs_chain lv a rs b \<Longrightarrow> r \<in> set rs \<Longrightarrow>
   run_start r < run_end r
   \<and> (\<forall>j. run_start r \<le> j \<and> j < run_end r \<longrightarrow> lv ! j = run_level r)"
  by (induction rs arbitrary: a) auto

lemma runs_chain_adjacent:
  "runs_chain lv a rs b \<Longrightarrow> Suc k < length rs \<Longrightarrow>
   run_start (rs ! Suc k) = run_end (rs ! k) \<and> run_level (rs ! Suc k) \<noteq> run_level (rs ! k)"
proof (induction rs arbitrary: a k)
  case Nil
  then show ?case by simp
next
  case (Cons r rs)
  show ?case
  proof (cases k)
    case 0
    with Cons.prems show ?thesis by (cases rs) auto
  next
    case (Suc k')
    with Cons show ?thesis by auto
  qed
qed

text \<open>
  Claim C4. For a line \<open>t\<close> that is not empty and a level array \<open>ls\<close> of the same length,
  the runs of \<open>getRuns\<close> partition the indices from 0 to \<open>length t\<close>: the first run starts
  at 0, every later run starts where the run before it ends, the last run ends at
  \<open>length t\<close>, no run is empty, the indices of a run all have the level of the run, and
  two adjacent runs have different levels.
\<close>

theorem getRuns_partitions_line:
  assumes "t \<noteq> []" and "length ls = length t"
  defines "rs \<equiv> getRuns t (Some \<lparr>levels = Some ls\<rparr>)"
  shows "rs \<noteq> [] \<and> run_start (hd rs) = 0 \<and> run_end (last rs) = length t
    \<and> (\<forall>k. Suc k < length rs \<longrightarrow>
          run_start (rs ! Suc k) = run_end (rs ! k)
          \<and> run_level (rs ! Suc k) \<noteq> run_level (rs ! k))
    \<and> (\<forall>r \<in> set rs. run_start r < run_end r
          \<and> (\<forall>j. run_start r \<le> j \<and> j < run_end r \<longrightarrow> ls ! j = run_level r))"
proof -
  have rs: "rs = getRuns_loop ls (length t) 1 (ls ! 0) 0 []"
    using assms by (simp add: getRuns_def)
  have "runs_chain ls 0 rs (length t) \<and> rs \<noteq> []"
    unfolding rs using assms(1) by (intro getRuns_loop_chain) (auto simp: Suc_le_eq)
  then show ?thesis
    using runs_chain_hd_last[of ls 0 rs "length t"] runs_chain_member[of ls 0 rs "length t"]
      runs_chain_adjacent[of ls 0 rs "length t"] by blast
qed

theorem getRuns_partitions_line_witness:
  "''abc'' \<noteq> [] \<and> length [0, 1, 1 :: nat] = length ''abc''
   \<and> getRuns ''abc'' (Some \<lparr>levels = Some [0, 1, 1]\<rparr>)
       = [\<lparr>run_start = 0, run_end = 1, run_level = 0\<rparr>,
          \<lparr>run_start = 1, run_end = 3, run_level = 1\<rparr>]
   \<and> run_end (last (getRuns ''abc'' (Some \<lparr>levels = Some [0, 1, 1]\<rparr>))) = length ''abc''"
  using getRuns_partitions_line[of "''abc''" "[0, 1, 1]"]
  by (simp add: getRuns_def getRuns_loop.simps)

section \<open>Shaping an empty line\<close>

lemma getRuns_empty: "getRuns [] e = [\<lparr>run_start = 0, run_end = 0, run_level = 0\<rparr>]"
  by (simp add: getRuns_def fallbackRuns_def split: option.splits)

lemma reorder_loop_undefined:
  "reorder_loop node srs reordered Map.empty i rest (segs, None, runStart) c
     = Inr ((segs, None, runStart), c)"
  by (induction rest arbitrary: i) simp_all

text \<open>
  For the empty line the fallback of \<open>getRuns\<close> gives one run from 0 to 0, \<open>runMap\<close> stays
  empty, \<open>currentRunIndex\<close> is \<open>undefined\<close>, and the final flush reads
  \<open>shapedRunSegments[undefined].text\<close>.
\<close>

lemma shapeLine_empty_TypeError:
  "shapeLineWithBidiRuns node [] xOffset currentLine currentHeight containerWidth useEngine
     placed c = Inl TypeError"
  by (simp add: shapeLineWithBidiRuns_def getRuns_empty Let_def reorder_loop_undefined
      visualSegment_def slice_def split: option.splits prod.splits)

lemma runs_chain_lengths:
  "runs_chain lv a rs b \<Longrightarrow>
   a \<le> b \<and> sum_list (map (\<lambda>r. run_end r - run_start r) rs) = b - a"
  by (induction rs arbitrary: a) fastforce+

lemma runs_chain_end_le:
  "runs_chain lv a rs b \<Longrightarrow> r \<in> set rs \<Longrightarrow> run_end r \<le> b"
proof (induction rs arbitrary: a)
  case Nil then show ?case by simp
next
  case (Cons x xs)
  then show ?case using runs_chain_lengths[of lv "run_end x" xs b] by auto
qed

lemma shapeRuns_texts:
  "map srs_text (fst (fst (shapeRuns node eng lt runs acc c)))
     = map srs_text (fst acc) @ map (\<lambda>r. slice lt (run_start r) (run_end r)) runs"
proof (induction runs arbitrary: acc c)
  case Nil then show ?case by simp
next
  case (Cons r runs)
  obtain segs a d where acc: "acc = (segs, a, d)" by (cases acc)
  show ?case unfolding acc
    by (simp add: Let_def Cons split: prod.splits)
qed

lemma fold_upd_runMap:
  "fold (\<lambda>i rm. rm(i \<mapsto> idx)) [a ..< a + n] rm
     = (\<lambda>i. if a \<le> i \<and> i < a + n then Some idx else rm i)"
proof (induction n arbitrary: rm)
  case 0
  then show ?case by (auto simp: fun_eq_iff)
next
  case (Suc n)
  have "[a ..< a + Suc n] = [a ..< a + n] @ [a + n]" by simp
  then show ?case using Suc by (auto simp del: upt_Suc simp: fun_eq_iff)
qed

lemma buildRunMap_covers:
  assumes "\<forall>i < segStart. \<exists>k < idx. rm i = Some k"
  shows "\<forall>i < segStart + sum_list (map (\<lambda>s. length (srs_text s)) segs).
           \<exists>k < idx + length segs. buildRunMap segs idx segStart rm i = Some k"
  using assms
proof (induction segs arbitrary: idx segStart rm)
  case Nil then show ?case by simp
next
  case (Cons seg segs)
  let ?len = "length (srs_text seg)"
  let ?rm = "fold (\<lambda>i rm. rm(i \<mapsto> idx)) [segStart ..< segStart + ?len] rm"
  have "\<forall>i < segStart + ?len. \<exists>k < idx + 1. ?rm i = Some k"
  proof (intro allI impI)
    fix i assume "i < segStart + ?len"
    show "\<exists>k < idx + 1. ?rm i = Some k"
    proof (cases "segStart \<le> i")
      case True
      with \<open>i < segStart + ?len\<close> show ?thesis by (simp add: fold_upd_runMap)
    next
      case False
      with Cons.prems obtain k where "k < idx" "rm i = Some k" by (meson not_le)
      with False show ?thesis by (auto simp: fold_upd_runMap)
    qed
  qed
  from Cons.IH[OF this] show ?case by (simp add: Let_def add.assoc)
qed

lemma visualSegment_returns:
  "k < length srs \<Longrightarrow> \<exists>res. visualSegment node srs reordered (Some k) runStart e c = Inr res"
  by (simp add: visualSegment_def js_index_def Let_def split: prod.splits)

lemma reorder_loop_returns:
  assumes "\<forall>r \<in> set rest. \<exists>k < length srs. runMap r = Some k" and "k < length srs"
  shows "\<exists>segs' k' runStart' c'. k' < length srs
     \<and> reorder_loop node srs reordered runMap i rest (segs, Some k, runStart) c
         = Inr ((segs', Some k', runStart'), c')"
  using assms
proof (induction rest arbitrary: i segs k runStart c)
  case Nil then show ?case by simp
next
  case (Cons r rest)
  from Cons.prems(1) obtain k2 where k2: "k2 < length srs" "runMap r = Some k2" by auto
  show ?case
  proof (cases "k2 = k")
    case True
    with k2 Cons show ?thesis by simp
  next
    case False
    from visualSegment_returns[OF Cons.prems(2)] obtain seg c1 where
      v: "visualSegment node srs reordered (Some k) runStart i c = Inr (seg, c1)" by fastforce
    from Cons.IH[of k2 "i + 1" "segs @ [seg]" i c1] Cons.prems(1) k2 False v
    show ?thesis by simp
  qed
qed

lemma getRuns_chain:
  assumes "t \<noteq> []"
  shows "\<exists>lv. runs_chain lv 0 (getRuns t e) (length t)"
proof -
  have fb: "runs_chain (replicate (length t) 0) 0 (fallbackRuns t) (length t)"
    using assms by (simp add: fallbackRuns_def)
  show ?thesis
  proof (cases "getRuns t e = fallbackRuns t")
    case True
    with fb show ?thesis by auto
  next
    case False
    then obtain ls where ls: "getRuns t e = getRuns_loop ls (length t) 1 (ls ! 0) 0 []"
      "length ls = length t"
      by (auto simp: getRuns_def split: option.splits if_splits)
    have "runs_chain ls 0 (getRuns_loop ls (length t) 1 (ls ! 0) 0 []) (length t)"
      using assms by (intro conjunct1[OF getRuns_loop_chain]) (auto simp: Suc_le_eq)
    with ls show ?thesis by auto
  qed
qed

text \<open>
  The empty line is the only one on which shaping throws, as long as the reordered
  indices are what bidi-js returns for a line that is not empty: a list, not empty, of
  indices of the line.
\<close>

lemma shapeLine_nonempty_returns:
  assumes "concat lineWords \<noteq> []"
    and "getReorderedIndices (the_bidi node) (concat lineWords)
           (getEmbeddingLevels (the_bidi node) (concat lineWords)) \<noteq> []"
    and "\<forall>r \<in> set (getReorderedIndices (the_bidi node) (concat lineWords)
           (getEmbeddingLevels (the_bidi node) (concat lineWords))). r < length (concat lineWords)"
  shows "\<exists>res. shapeLineWithBidiRuns node lineWords xOffset currentLine currentHeight cw eng
           placed c = Inr res"
proof -
  let ?t = "concat lineWords"
  let ?e = "getEmbeddingLevels (the_bidi node) ?t"
  let ?ro = "getReorderedIndices (the_bidi node) ?t ?e"
  obtain srs a d c1 where sr: "shapeRuns node eng ?t (getRuns ?t ?e) ([], 0, 0) c = ((srs, a, d), c1)"
    by (metis prod_cases3 surj_pair)
  from getRuns_chain[OF assms(1)] obtain lv where ch: "runs_chain lv 0 (getRuns ?t ?e) (length ?t)" ..
  have texts: "map srs_text srs = map (\<lambda>r. slice ?t (run_start r) (run_end r)) (getRuns ?t ?e)"
    using shapeRuns_texts[of node eng ?t "getRuns ?t ?e" "([], 0, 0)" c] sr by simp
  have len: "length (slice ?t (run_start r) (run_end r)) = run_end r - run_start r"
    if "r \<in> set (getRuns ?t ?e)" for r
    using runs_chain_end_le[OF ch that] by (simp add: slice_def)
  have "map (\<lambda>s. length (srs_text s)) srs = map length (map srs_text srs)"
    by (simp add: comp_def)
  also have "\<dots> = map (\<lambda>r. run_end r - run_start r) (getRuns ?t ?e)"
    unfolding texts by (simp add: len)
  finally have total: "sum_list (map (\<lambda>s. length (srs_text s)) srs) = length ?t"
    using runs_chain_lengths[OF ch] by simp
  let ?rm = "buildRunMap srs 0 0 Map.empty"
  have cover: "\<forall>i < length ?t. \<exists>k < length srs. ?rm i = Some k"
    using buildRunMap_covers[of 0 0 Map.empty srs] total by simp
  from assms(2) obtain r0 rest where ro: "?ro = r0 # rest" by (cases ?ro) auto
  with assms(3) cover obtain k0 where k0: "k0 < length srs" "?rm r0 = Some k0" by auto
  have "\<forall>r \<in> set ?ro. \<exists>k < length srs. ?rm r = Some k" using assms(3) cover by auto
  from reorder_loop_returns[OF this k0(1), of node ?ro 0 "[]" 0 c1]
  obtain segs' k' runStart' c2 where k': "k' < length srs"
    and rl: "reorder_loop node srs ?ro ?rm 0 ?ro ([], Some k0, 0) c1
               = Inr ((segs', Some k', runStart'), c2)" by blast
  from visualSegment_returns[OF k', of node ?ro runStart' "length ?ro" c2]
  obtain seg c3 where v: "visualSegment node srs ?ro (Some k') runStart' (length ?ro) c2
      = Inr (seg, c3)" by fastforce
  show ?thesis
    using sr rl v k0 ro
    by (simp add: shapeLineWithBidiRuns_def Let_def js_index_def split: prod.splits)
qed


text \<open>
  Claim C1 says that shaping an empty line gives zero runs, zero segments and zero width
  and never throws. The code does otherwise: for the three words \<open>a\<close> followed by a
  newline, a newline alone, and \<open>b\<close>, with a forced break at the second and at the third
  word, the second forced break shapes the empty line, whose run list is the single run
  from 0 to 0, and \<open>flow\<close> ends with a \<open>TypeError\<close>.
\<close>

theorem flow_two_forced_breaks_TypeError:
  "getRuns (concat []) (getEmbeddingLevels ltr_bidi (concat []))
     = [\<lparr>run_start = 0, run_end = 0, run_level = 0\<rparr>]
   \<and> shapeLineWithBidiRuns (example_node [''a'' @ [CHR 0x0A], [CHR 0x0A], ''b'']
         [False, True, True]) [] 0 1 18 100 (example_engine 16) [] Map.empty = Inl TypeError
   \<and> flow (example_node [''a'' @ [CHR 0x0A], [CHR 0x0A], ''b''] [False, True, True])
       100 16 0 (example_engine 16) Map.empty = Inl TypeError"
  by (simp add: flow_defs example_defs)

text \<open>
  Claim C3 says that when the level array is empty or of another length than the line,
  run derivation returns exactly one run, from 0 to the length of the line at level 0, so
  that layout still produces a result. Run derivation does return that run (lemma
  \<open>getRuns_fallback_single_run\<close>). Layout does not always produce a result from it: for
  the empty line, the line for which bidi-js returns an empty level array, the run is the
  one from 0 to 0 and shaping throws. Here the text starts with two newlines, and the
  forced break after the second one shapes the empty line.
\<close>

theorem fallback_run_of_empty_line_TypeError:
  "getEmbeddingLevels ltr_bidi [] = Some \<lparr>levels = Some []\<rparr>
   \<and> getRuns [] (Some \<lparr>levels = Some []\<rparr>) = [\<lparr>run_start = 0, run_end = 0, run_level = 0\<rparr>]
   \<and> shapeLineWithBidiRuns (example_node [[CHR 0x0A], [CHR 0x0A], ''x''] [False, True, True])
        [] 0 1 18 100 (example_engine 16) [] Map.empty = Inl TypeError
   \<and> flow (example_node [[CHR 0x0A], [CHR 0x0A], ''x''] [False, True, True]) 100 16 0
        (example_engine 16) Map.empty = Inl TypeError"
  by (simp add: flow_defs example_defs)

section \<open>The line limit and the empty word sequence\<close>

lemma shapeLine_placed:
  assumes "shapeLineWithBidiRuns node lineWords xOffset currentLine currentHeight cw eng placed c
            = Inr ((lr, placed'), c')"
  shows "\<exists>new. placed' = placed @ new \<and> (\<forall>seg \<in> set new. ps_line seg = currentLine)"
  using assms
  by (auto simp: shapeLineWithBidiRuns_def Let_def recordSegments_def
      split: prod.splits sum.splits dest!: set_zip_leftD)

lemma finalizeLine_inv:
  assumes "finalizeLine node cw eng st c = Inr (st', c')" and "flow_inv node st"
    and "enat (lines st) < lineLimit node"
  shows "flow_inv node st' \<and> lines st' = lines st + 1
     \<and> currentLineWords st' = currentLineWords st \<and> currentLineWidth st' = currentLineWidth st"
proof -
  from assms(1) obtain lr placed where
    sh: "shapeLineWithBidiRuns node (currentLineWords st) 0 (lines st) (totalHeight st) cw eng
           (placedSegments st) c = Inr ((lr, placed), c')"
    and st': "st' = st\<lparr>placedSegments := placed,
                   lineWidths := lineWidths st @ [lr_width lr],
                   baselines := baselines st @ [lr_baseline lr],
                   lineSegmentNumber := lineSegmentNumber st @ [length (currentLineWords st)],
                   totalHeight := totalHeight st + lr_lineHeight lr,
                   maxWidth := max (maxWidth st) (lr_width lr),
                   lines := lines st + 1\<rparr>"
    by (auto simp: finalizeLine_def split: sum.splits)
  from shapeLine_placed[OF sh] obtain new where
    new: "placed = placedSegments st @ new" "\<forall>seg \<in> set new. ps_line seg = lines st" by blast
  have "enat (lines st + 1) \<le> lineLimit node"
    using assms(3) by (metis Suc_eq_plus1 Suc_ile_eq)
  with assms(2) new show ?thesis
    unfolding st' flow_inv_def by (auto simp: less_Suc_eq)
qed

lemma flow_step_inv:
  assumes "flow_step node cw fs ls eng i word st c = Inr (st', c')" and "flow_inv node st"
    and "enat (lines st) < lineLimit node"
  shows "flow_inv node st'"
proof -
  obtain w c1 where mw: "measureWord node fs ls word c = (w, c1)" by (cases "measureWord node fs ls word c")
  show ?thesis
  proof (cases "forcedBreakAt node i \<or> willWrap node cw i word w (currentLineWidth st)")
    case True
    with assms(1) mw obtain st1 c2 where fl: "finalizeLine node cw eng st c1 = Inr (st1, c2)"
      by (auto simp: flow_step_def Let_def split: sum.splits)
    from finalizeLine_inv[OF fl assms(2,3)] have "flow_inv node st1" by simp
    with assms(1) mw True fl show ?thesis
      by (auto simp: flow_step_def Let_def flow_inv_def split: if_splits)
  next
    case False
    with assms(1,2) mw show ?thesis by (auto simp: flow_step_def flow_inv_def)
  qed
qed

lemma flow_loop_inv:
  "flow_loop node cw fs ls eng i rest st c = Inr (st', c') \<Longrightarrow> flow_inv node st \<Longrightarrow> flow_inv node st'"
proof (induction rest arbitrary: i st c)
  case Nil then show ?case by simp
next
  case (Cons word rest)
  show ?case
  proof (cases "enat (lines st) < lineLimit node")
    case False with Cons.prems show ?thesis by simp
  next
    case True
    with Cons.prems(1) obtain st1 c1 where
      step: "flow_step node cw fs ls eng i word st c = Inr (st1, c1)"
      and rest: "flow_loop node cw fs ls eng (i + 1) rest st1 c1 = Inr (st', c')"
      by (auto split: sum.splits)
    from flow_step_inv[OF step Cons.prems(2) True] Cons.IH[OF rest] show ?thesis by simp
  qed
qed

lemma flow_flush_inv:
  "flow_flush node cw eng st c = Inr (st', c') \<Longrightarrow> flow_inv node st \<Longrightarrow> flow_inv node st'"
  using finalizeLine_inv[of node cw eng st c st' c']
  by (auto simp: flow_flush_def split: if_splits)

lemma flow_inv_initial: "flow_inv node initialFlowState"
  by (simp add: flow_inv_def initialFlowState_def zero_enat_def[symmetric])

lemma flow_layout_inv:
  assumes "flow node cw fs ls eng c = Inr ((sz, lay), c')"
  shows "\<exists>st. flow_inv node st \<and> lay = layout.truncate st
            \<and> sz = \<lparr>sz_width = maxWidth st, sz_height = totalHeight st\<rparr>"
proof -
  from assms obtain st1 c1 st2 where
    loop: "flow_loop node cw fs ls eng 0 (words node) initialFlowState c = Inr (st1, c1)"
    and flush: "flow_flush node cw eng st1 c1 = Inr (st2, c')"
    and res: "lay = layout.truncate st2" "sz = \<lparr>sz_width = maxWidth st2, sz_height = totalHeight st2\<rparr>"
    by (auto simp: flow_def split: sum.splits)
  from flow_flush_inv[OF flush flow_loop_inv[OF loop flow_inv_initial]] res
  show ?thesis by blast
qed

lemma flow_at_limit:
  assumes "lineLimit node \<le> enat (lines st)"
  shows "flow_loop node cw fs ls eng i rest st c = Inr (st, c)"
    and "flow_flush node cw eng st c = Inr (st, c)"
proof -
  from assms have "\<not> enat (lines st) < lineLimit node" by simp
  then show "flow_loop node cw fs ls eng i rest st c = Inr (st, c)"
    and "flow_flush node cw eng st c = Inr (st, c)"
    by (cases rest, simp_all add: flow_flush_def)
qed

text \<open>
  Claim C6. \<open>flow\<close> never records more lines than \<open>lineLimit\<close>: whenever it returns, the
  three arrays have the same length, at most \<open>lineLimit\<close>, and every placed segment lies
  on a line below the limit. Once \<open>lineLimit\<close> lines are completed, the loop stops where
  it is and the last flush does nothing, whatever words are left: they are dropped, and
  this raises no error.
\<close>

theorem flow_line_limit:
  "(flow node cw fs ls eng c = Inr ((sz, lay), c') \<longrightarrow>
      enat (length (lineWidths lay)) \<le> lineLimit node
      \<and> length (baselines lay) = length (lineWidths lay)
      \<and> length (lineSegmentNumber lay) = length (lineWidths lay)
      \<and> (\<forall>seg \<in> set (placedSegments lay). enat (ps_line seg) < lineLimit node))
   \<and> (lineLimit node \<le> enat (lines st) \<longrightarrow>
        flow_loop node cw fs ls eng i rest st c = Inr (st, c)
        \<and> flow_flush node cw eng st c = Inr (st, c))"
proof (intro conjI impI)
  assume "flow node cw fs ls eng c = Inr ((sz, lay), c')"
  from flow_layout_inv[OF this] obtain st0 where
    inv: "flow_inv node st0" and lay: "lay = layout.truncate st0" by blast
  show "enat (length (lineWidths lay)) \<le> lineLimit node"
    "length (baselines lay) = length (lineWidths lay)"
    "length (lineSegmentNumber lay) = length (lineWidths lay)"
    using inv by (simp_all add: lay flow_inv_def layout.defs)
  show "\<forall>seg \<in> set (placedSegments lay). enat (ps_line seg) < lineLimit node"
  proof
    fix seg assume "seg \<in> set (placedSegments lay)"
    with inv have "ps_line seg < lines st0" "enat (lines st0) \<le> lineLimit node"
      by (simp_all add: lay flow_inv_def layout.defs)
    then show "enat (ps_line seg) < lineLimit node"
      using enat_ord_simps(2) less_le_trans by blast
  qed
qed (simp_all add: flow_at_limit)


theorem flow_line_limit_witness:
  "map_sum id (lineWidths \<circ> snd \<circ> fst) (flow one_line_node 40 16 0 (example_engine 16) Map.empty)
     = Inr [48]
   \<and> map_sum id (map ps_text \<circ> placedSegments \<circ> snd \<circ> fst)
       (flow one_line_node 40 16 0 (example_engine 16) Map.empty) = Inr [''ab '']
   \<and> enat (length [48 :: num]) \<le> lineLimit one_line_node
   \<and> lineLimit one_line_node \<le> enat (lines (initialFlowState\<lparr>lines := 1\<rparr>))
   \<and> flow_loop one_line_node 40 16 0 (example_engine 16) 1 [''c'']
        (initialFlowState\<lparr>lines := 1\<rparr>) Map.empty
       = Inr (initialFlowState\<lparr>lines := 1\<rparr>, Map.empty)"
proof -
  obtain sz lay c' where fl:
    "flow one_line_node 40 16 0 (example_engine 16) Map.empty = Inr ((sz, lay), c')"
    and lay: "lineWidths lay = [48]" "map ps_text (placedSegments lay) = [''ab '']"
    by (simp add: flow_defs example_defs one_enat_def)
  have lim: "lineLimit one_line_node \<le> enat (lines (initialFlowState\<lparr>lines := 1\<rparr>))"
    by (simp add: example_defs one_enat_def)
  from flow_line_limit[of one_line_node 40 16 0 "example_engine 16" Map.empty sz lay c'
      "initialFlowState\<lparr>lines := 1\<rparr>" 1 "[''c'']"] fl lay lim
  show ?thesis by simp
qed

text \<open>
  Claim C10. For an empty word sequence \<open>flow\<close> returns width 0 and height 0, records no
  line in any of the three arrays and places no segment.
\<close>

theorem flow_no_words: "words node = [] \<Longrightarrow>
  flow node cw fs ls eng c =
    Inr ((\<lparr>sz_width = 0, sz_height = 0\<rparr>,
          \<lparr>lineWidths = [], baselines = [], lineSegmentNumber = [], placedSegments = []\<rparr>), c)"
  by (simp add: flow_def flow_flush_def initialFlowState_def layout.defs)

theorem flow_no_words_witness: "words (example_node [] []) = [] \<and>
  flow (example_node [] []) 100 16 0 (example_engine 16) Map.empty =
    Inr ((\<lparr>sz_width = 0, sz_height = 0\<rparr>,
          \<lparr>lineWidths = [], baselines = [], lineSegmentNumber = [], placedSegments = []\<rparr>), Map.empty)"
  using flow_no_words[of "example_node [] []" 100 16 0 "example_engine 16" Map.empty]
  by (simp add: example_defs)

section \<open>Running again from the cache that a run leaves\<close>

lemma replays_return: "replays (\<lambda>c. Inr (x, c))"
  by (simp add: replays_def)

lemma replays_throw: "replays (\<lambda>c. Inl e)"
  by (simp add: replays_def)

lemma replays_bind:
  assumes "replays f" and "\<And>x. replays (g x)"
  shows "replays (\<lambda>c. case f c of Inl e \<Rightarrow> Inl e | Inr (x, c1) \<Rightarrow> g x c1)"
  unfolding replays_def
proof (intro allI impI)
  fix c y c2
  assume r: "(case f c of Inl e \<Rightarrow> Inl e | Inr (x, c1) \<Rightarrow> g x c1) = Inr (y, c2)"
  then obtain x c1 where f: "f c = Inr (x, c1)" and g: "g x c1 = Inr (y, c2)"
    by (auto split: sum.splits)
  from assms(1) f have f1: "c \<subseteq>\<^sub>m c1" and f2: "\<And>c'. c1 \<subseteq>\<^sub>m c' \<Longrightarrow> f c' = Inr (x, c')"
    unfolding replays_def by blast+
  from assms(2)[of x] g have g1: "c1 \<subseteq>\<^sub>m c2"
    and g2: "\<And>c'. c2 \<subseteq>\<^sub>m c' \<Longrightarrow> g x c' = Inr (y, c')"
    unfolding replays_def by blast+
  show "c \<subseteq>\<^sub>m c2 \<and>
        (\<forall>c'. c2 \<subseteq>\<^sub>m c' \<longrightarrow>
           (case f c' of Inl e \<Rightarrow> Inl e | Inr (x, c1) \<Rightarrow> g x c1) = Inr (y, c'))"
  proof (intro conjI allI impI)
    show "c \<subseteq>\<^sub>m c2" using f1 g1 by (rule map_le_trans)
  next
    fix c' assume le: "c2 \<subseteq>\<^sub>m c'"
    then have "c1 \<subseteq>\<^sub>m c'" using g1 map_le_trans by blast
    from f2[OF this] g2[OF le]
    show "(case f c' of Inl e \<Rightarrow> Inl e | Inr (x, c1) \<Rightarrow> g x c1) = Inr (y, c')" by simp
  qed
qed

lemma replays_let:
  assumes "replays (\<lambda>c. Inr (p c))" and "\<And>x. replays (g x)"
  shows "replays (\<lambda>c. case p c of (x, c1) \<Rightarrow> g x c1)"
  using replays_bind[OF assms(1), of g] assms(2) by simp

lemma replays_if:
  "replays f \<Longrightarrow> replays g \<Longrightarrow> replays (\<lambda>c. if b then f c else g c)"
  by (cases b) simp_all

lemma replays_case_prod:
  "(\<And>a b. replays (g a b)) \<Longrightarrow> replays (\<lambda>c. case p of (a, b) \<Rightarrow> g a b c)"
  by (cases p) simp

lemma replays_measureGrapheme: "replays (\<lambda>c. Inr (measureGrapheme m g f s c))"
  unfolding replays_def
proof (intro allI impI)
  fix c x c1
  let ?k = "cacheKey m g f s"
  assume "Inr (measureGrapheme m g f s c) = (Inr (x, c1) :: error + num \<times> cache)"
  then have r: "measureGrapheme m g f s c = (x, c1)" by simp
  have c1: "c \<subseteq>\<^sub>m c1" and k: "c1 ?k = Some x"
    using r by (auto simp: measureGrapheme_def Let_def map_le_def split: option.splits)
  have "measureGrapheme m g f s c' = (x, c')" if "c1 \<subseteq>\<^sub>m c'" for c'
  proof -
    from that k have "c' ?k = Some x" by (auto simp: map_le_def dom_def)
    then show ?thesis by (simp add: measureGrapheme_def Let_def)
  qed
  with c1 show "c \<subseteq>\<^sub>m c1 \<and>
     (\<forall>c'. c1 \<subseteq>\<^sub>m c' \<longrightarrow>
        Inr (measureGrapheme m g f s c') = (Inr (x, c') :: error + num \<times> cache))"
    by simp
qed


lemma replays_measureGraphemeArray_loop:
  "replays (\<lambda>c. Inr (measureGraphemeArray_loop m gs f s w c))"
proof (induction gs arbitrary: w)
  case Nil
  show ?case by (simp add: replays_return)
next
  case (Cons g gs)
  show ?case
  proof (cases "m_isImage m g")
    case True
    with Cons show ?thesis by simp
  next
    case False
    have eq: "(\<lambda>c. Inr (measureGraphemeArray_loop m (g # gs) f s w c) :: error + num \<times> cache)
        = (\<lambda>c. case measureGrapheme m g f s c of
                  (w', c1) \<Rightarrow> Inr (measureGraphemeArray_loop m gs f s (w + w') c1))"
      using False by (simp add: fun_eq_iff split: prod.splits)
    show ?thesis
      unfolding eq by (rule replays_let[OF replays_measureGrapheme]) (rule Cons.IH)
  qed
qed

lemma replays_measureText: "replays (\<lambda>c. Inr (measureText m t f s c))"
  by (simp add: measureText_def measureGraphemeArray_def replays_measureGraphemeArray_loop)

lemma replays_measureWord: "replays (\<lambda>c. Inr (measureWord node f s w c))"
  by (cases "m_isImage (the_measurer node) w")
     (simp_all add: measureWord_def replays_measureText replays_return)

lemma replays_shapeRuns: "replays (\<lambda>c. Inr (shapeRuns node eng lineText runs acc c))"
proof (induction runs arbitrary: acc)
  case Nil
  show ?case by (simp add: replays_return)
next
  case (Cons run runs)
  obtain segs a d where acc: "acc = (segs, a, d)" by (cases acc)
  let ?sub = "slice lineText (run_start run) (run_end run)"
  show ?case
  proof (cases "m_isImage (the_measurer node) ?sub")
    case True
    with Cons show ?thesis by (simp add: acc Let_def)
  next
    case False
    let ?g = "\<lambda>w c1. Inr (shapeRuns node eng lineText runs
         (segs @ [\<lparr>srs_text = ?sub, srs_width = w, srs_isRTL = (run_level run mod 2 = 1),
                   srs_isImage = False\<rparr>],
          (if eng_baseline eng ?sub > a then eng_baseline eng ?sub else a),
          (if eng_height eng ?sub - eng_baseline eng ?sub > d
           then eng_height eng ?sub - eng_baseline eng ?sub else d)) c1)
         :: error + (shaped_run_segment list \<times> num \<times> num) \<times> cache"
    have eq: "(\<lambda>k. Inr (shapeRuns node eng lineText (run # runs) acc k))
       = (\<lambda>k. case measureText (the_measurer node) ?sub (style_fontSize node)
                 (style_letterSpacing node) k of (w, c1) \<Rightarrow> ?g w c1)"
      using False by (simp add: acc Let_def fun_eq_iff split: prod.splits)
    show ?thesis
      unfolding eq by (rule replays_let[OF replays_measureText]) (rule Cons.IH)
  qed
qed

lemma replays_visualSegment:
  "replays (\<lambda>c. visualSegment node srs reordered cri runStart e c)"
proof (cases cri)
  case None
  then show ?thesis by (simp add: visualSegment_def replays_throw)
next
  case (Some k)
  show ?thesis
  proof (cases "js_index srs k")
    case None
    with Some show ?thesis by (simp add: visualSegment_def replays_throw)
  next
    case (Some seg)
    show ?thesis
      unfolding visualSegment_def Let_def
      apply (simp only: \<open>cri = Some k\<close> Some option.case)
      apply (rule replays_let[OF replays_measureText])
      apply (rule replays_return)
      done
  qed
qed

lemma replays_reorder_loop:
  "replays (\<lambda>c. reorder_loop node srs reordered runMap i rest st c)"
proof (induction rest arbitrary: i st)
  case Nil
  show ?case by (simp add: replays_return)
next
  case (Cons rIndex rest)
  obtain segs cri runStart where st: "st = (segs, cri, runStart)" by (cases st)
  show ?case
  proof (cases "runMap rIndex \<noteq> cri")
    case True
    have "replays (\<lambda>c. case visualSegment node srs reordered cri runStart i c of Inl e \<Rightarrow> Inl e
         | Inr (seg, c1) \<Rightarrow> reorder_loop node srs reordered runMap (i + 1) rest
                               (segs @ [seg], runMap rIndex, i) c1)"
      by (rule replays_bind[OF replays_visualSegment]) (rule Cons.IH)
    with True show ?thesis by (simp add: st Let_def)
  next
    case False
    with Cons show ?thesis by (simp add: st Let_def)
  qed
qed

lemma replays_shapeLine:
  "replays (\<lambda>c. shapeLineWithBidiRuns node lineWords xOffset currentLine currentHeight cw eng
                   placed c)"
  unfolding shapeLineWithBidiRuns_def Let_def
  apply (rule replays_let[OF replays_shapeRuns])
  apply (simp only: split_paired_all prod.case)
  apply (rule replays_bind[OF replays_reorder_loop])
  apply (simp only: split_paired_all prod.case)
  apply (rule replays_bind[OF replays_visualSegment])
  apply (rule replays_case_prod)
  apply (rule replays_return)
  done

lemma replays_finalizeLine: "replays (\<lambda>c. finalizeLine node cw eng st c)"
  unfolding finalizeLine_def
  apply (rule replays_bind[OF replays_shapeLine])
  apply (simp only: split_paired_all prod.case)
  apply (rule replays_return)
  done

lemma replays_flow_step: "replays (\<lambda>c. flow_step node cw fs ls eng i word st c)"
  unfolding flow_step_def Let_def
  apply (rule replays_let[OF replays_measureWord])
  apply (rule replays_if)
   apply (rule replays_bind[OF replays_finalizeLine])
   apply (rule replays_if)
    apply (rule replays_return)
   apply (rule replays_return)
  apply (rule replays_return)
  done

lemma replays_flow_loop: "replays (\<lambda>c. flow_loop node cw fs ls eng i rest st c)"
proof (induction rest arbitrary: i st)
  case Nil
  show ?case by (simp add: replays_return)
next
  case (Cons word rest)
  show ?case
  proof (cases "enat (lines st) < lineLimit node")
    case False
    then show ?thesis by (simp add: replays_return)
  next
    case True
    have "replays (\<lambda>c. case flow_step node cw fs ls eng i word st c of Inl e \<Rightarrow> Inl e
        | Inr (st', c1) \<Rightarrow> flow_loop node cw fs ls eng (i + 1) rest st' c1)"
      by (rule replays_bind[OF replays_flow_step]) (rule Cons.IH)
    with True show ?thesis by simp
  qed
qed

lemma replays_flow_flush: "replays (\<lambda>c. flow_flush node cw eng st c)"
  unfolding flow_flush_def by (rule replays_if[OF replays_finalizeLine replays_return])

lemma replays_flow: "replays (\<lambda>c. flow node cw fs ls eng c)"
  unfolding flow_def
  apply (rule replays_bind[OF replays_flow_loop])
  apply (rule replays_bind[OF replays_flow_flush])
  apply (rule replays_return)
  done

lemma replays_fitLoop: "replays (\<lambda>c. fitLoop node cw ch lo hi best c)"
proof (induction "nat (\<lfloor>hi\<rfloor> - \<lfloor>lo\<rfloor> + 1)" arbitrary: lo hi best rule: less_induct)
  case less
  show ?case
  proof (cases "lo \<le> hi")
    case False
    then have "(\<lambda>c. fitLoop node cw ch lo hi best c) = (\<lambda>c. Inr (best, c))"
      by (subst fitLoop.simps) (simp add: fun_eq_iff)
    then show ?thesis by (simp add: replays_return)
  next
    case True
    let ?mid = "real_of_int \<lfloor>(lo + hi) / 2\<rfloor>"
    have fl: "\<lfloor>lo\<rfloor> \<le> \<lfloor>(lo + hi) / 2\<rfloor>" "\<lfloor>(lo + hi) / 2\<rfloor> \<le> \<lfloor>hi\<rfloor>"
      using True by (auto intro!: floor_mono)
    have up: "replays (\<lambda>c. fitLoop node cw ch (?mid + 1) hi ?mid c)"
      using fl by (intro less.hyps) simp
    have down: "replays (\<lambda>c. fitLoop node cw ch lo (?mid - 1) best c)"
      using fl by (intro less.hyps) simp
    have "replays (\<lambda>c.
        case flow node cw ?mid (style_letterSpacing node) (getEngine node ?mid) c of
          Inl e \<Rightarrow> Inl e
        | Inr ((sz, lay), c1) \<Rightarrow> (if sz_height sz \<le> ch
             then fitLoop node cw ch (?mid + 1) hi ?mid c1
             else fitLoop node cw ch lo (?mid - 1) best c1))"
      apply (rule replays_bind[OF replays_flow])
      apply (simp only: split_paired_all prod.case)
      apply (rule replays_if[OF up down])
      done
    moreover have "(\<lambda>c. fitLoop node cw ch lo hi best c) = (\<lambda>c.
        case flow node cw ?mid (style_letterSpacing node) (getEngine node ?mid) c of
          Inl e \<Rightarrow> Inl e
        | Inr ((sz, lay), c1) \<Rightarrow> (if sz_height sz \<le> ch
             then fitLoop node cw ch (?mid + 1) hi ?mid c1
             else fitLoop node cw ch lo (?mid - 1) best c1))"
      using True by (subst fitLoop.simps) (simp add: Let_def fun_eq_iff)
    ultimately show ?thesis by simp
  qed
qed

lemma node_state_overwrite:
  "finalFontSize ns = finalFontSize ns' \<Longrightarrow>
   (storeLayout lay ns)\<lparr>currentEngine := e, measuredTextSize := s\<rparr>
     = (storeLayout lay ns')\<lparr>currentEngine := e, measuredTextSize := s\<rparr>"
  "(storeLayout lay ns)\<lparr>finalFontSize := b, currentEngine := e, measuredTextSize := s\<rparr>
     = (storeLayout lay ns')\<lparr>finalFontSize := b, currentEngine := e, measuredTextSize := s\<rparr>"
  by (cases ns; cases ns'; simp add: storeLayout_def)+

lemma replays_measureFunc: "replays (\<lambda>c. measureFunc node cw ch ns c)"
proof (cases "textFit node = TF_multiline")
  case True
  show ?thesis
    unfolding measureFunc_def Let_def
    apply (simp only: True simp_thms if_True)
    apply (rule replays_bind[OF replays_fitLoop])
    apply (rule replays_bind[OF replays_flow])
    apply (simp only: split_paired_all prod.case)
    apply (rule replays_return)
    done
next
  case False
  show ?thesis
    unfolding measureFunc_def Let_def
    apply (simp only: False simp_thms if_False)
    apply (rule replays_bind[OF replays_flow])
    apply (simp only: split_paired_all prod.case)
    apply (rule replays_return)
    done
qed

text \<open>
  The measure function reads the closure only for \<open>finalFontSize\<close>, and only when
  \<open>textFit\<close> is not \<open>'multiline'\<close>; everything else in it is overwritten.
\<close>

lemma measureFunc_closure:
  assumes "textFit node = TF_multiline \<or> finalFontSize ns = finalFontSize ns'"
  shows "measureFunc node cw ch ns' c = measureFunc node cw ch ns c"
proof (cases "textFit node = TF_multiline")
  case True
  then show ?thesis
    unfolding measureFunc_def Let_def
    by (simp only: True simp_thms if_True node_state_overwrite(2)[where ns = ns' and ns' = ns])
next
  case False
  with assms have eq: "finalFontSize ns = finalFontSize ns'" by simp
  show ?thesis
    unfolding measureFunc_def Let_def
    by (simp only: False simp_thms if_False eq node_state_overwrite(1)[OF eq[symmetric]])
qed

section \<open>Line breaks\<close>

text \<open>
  Whenever a turn of the loop returns, a line was completed at its word exactly under the
  condition of the specification, \<open>claimed_lineBreak\<close>: the turns on which \<open>willWrap\<close>
  departs from it are those that finalize an empty line, and they throw.
\<close>

lemma finalizeLine_returns_nonempty:
  "finalizeLine node cw eng st c = Inr r \<Longrightarrow> currentLineWords st \<noteq> []"
  by (auto simp: finalizeLine_def shapeLine_empty_TypeError)

lemma flow_step_break_when_returns:
  assumes "flow_step node cw fs ls eng i word st c = Inr (st', c')"
    and "i = 0 \<longrightarrow> currentLineWords st = []"
  defines "w \<equiv> fst (measureWord node fs ls word c)"
  shows "(lines st' = lines st + 1 \<longleftrightarrow>
            claimed_lineBreak node cw i word w (currentLineWords st) (currentLineWidth st))
       \<and> (forcedBreakAt node i \<longrightarrow> currentLineWords st' = [] \<and> currentLineWidth st' = 0)
       \<and> (\<not> forcedBreakAt node i \<and> lines st' = lines st + 1 \<longrightarrow>
             currentLineWords st' = [word] \<and> currentLineWidth st' = w)
       \<and> (lines st' \<noteq> lines st + 1 \<longrightarrow>
             lines st' = lines st \<and> currentLineWords st' = currentLineWords st @ [word]
             \<and> currentLineWidth st' = currentLineWidth st + w
             \<and> lineWidths st' = lineWidths st \<and> placedSegments st' = placedSegments st)"
proof -
  obtain c1 where mw: "measureWord node fs ls word c = (w, c1)"
    unfolding w_def by (cases "measureWord node fs ls word c") simp
  show ?thesis
  proof (cases "forcedBreakAt node i \<or> willWrap node cw i word w (currentLineWidth st)")
    case False
    with assms(1,2) mw show ?thesis
      by (auto simp: flow_step_def claimed_lineBreak_def willWrap_def
          allowedToPutAtBeginning_def)
  next
    case True
    with assms(1) mw obtain st1 c2 where
      fl: "finalizeLine node cw eng st c1 = Inr (st1, c2)"
      by (auto simp: flow_step_def Let_def split: sum.splits)
    then have st1: "lines st1 = lines st + 1"
      by (auto simp: finalizeLine_def split: sum.splits)
    from finalizeLine_returns_nonempty[OF fl] have ne: "currentLineWords st \<noteq> []" .
    from assms(1) mw True fl st1 ne show ?thesis
      by (auto simp: flow_step_def Let_def claimed_lineBreak_def willWrap_def
          allowedToPutAtBeginning_def split: if_splits)
  qed
qed

text \<open>
  Claim C5 says that a line break occurs at a word if and only if its forced-break flag
  is set, or the word is not the first word of the current line, its first character is
  not one of \<open>,.!?:-@)>]}%#\<close>, the width of the line plus the width of the word exceeds
  the container width and soft wrap is allowed. The code tests \<open>i\<close>, the index of the word
  in the whole sequence, where the claim has the position of the word on its line. After
  the forced break at the second word the line is empty, so the third word is the first
  word of its line and, by the claim, starts the line without a break. It is wider than
  the container: \<open>willWrap\<close> holds for it, the code finalizes the empty line, and \<open>flow\<close>
  throws.
\<close>

theorem first_word_of_line_wraps:
  "map_sum id (currentLineWords \<circ> fst)
     (flow_loop (example_node [''a'' @ [CHR 0x0A], ''b '', ''cde''] [False, True, False]) 40 16 0
        (example_engine 16) 0 [''a'' @ [CHR 0x0A], ''b ''] initialFlowState Map.empty) = Inr []
   \<and> map_sum id (currentLineWidth \<circ> fst)
     (flow_loop (example_node [''a'' @ [CHR 0x0A], ''b '', ''cde''] [False, True, False]) 40 16 0
        (example_engine 16) 0 [''a'' @ [CHR 0x0A], ''b ''] initialFlowState Map.empty) = Inr 0
   \<and> fst (measureWord (example_node [''a'' @ [CHR 0x0A], ''b '', ''cde''] [False, True, False])
            16 0 ''cde'' Map.empty) = 48
   \<and> \<not> claimed_lineBreak (example_node [''a'' @ [CHR 0x0A], ''b '', ''cde''] [False, True, False])
         40 2 ''cde'' 48 [] 0
   \<and> willWrap (example_node [''a'' @ [CHR 0x0A], ''b '', ''cde''] [False, True, False])
        40 2 ''cde'' 48 0
   \<and> flow (example_node [''a'' @ [CHR 0x0A], ''b '', ''cde''] [False, True, False]) 40 16 0
        (example_engine 16) Map.empty = Inl TypeError"
  by (simp add: flow_defs example_defs claimed_lineBreak_def)

section \<open>Alignment\<close>

text \<open>
  Claim C8, as amended. Every segment that \<open>flow\<close> places lies on a line with a recorded
  width \<open>w\<close>. In a container of width \<open>W\<close>, when \<open>w\<close> is not 0, its final x-offset is its
  start-aligned x plus \<open>(W - w) / 2\<close> for \<open>center\<close> and plus \<open>W - w\<close> for \<open>right\<close> and \<open>end\<close>;
  for \<open>left\<close>, \<open>start\<close> and \<open>justify\<close>, and whenever \<open>w\<close> is 0, it is the start-aligned x.
\<close>

theorem alignedLeftOffset_shift:
  assumes "flow node cw fs ls eng c = Inr ((sz, lay), c')"
    and "seg \<in> set (placedSegments lay)"
  defines "w \<equiv> lineWidths lay ! ps_line seg"
  shows "ps_line seg < length (lineWidths lay)
     \<and> alignedLeftOffset align W (lineWidths lay) seg =
         (if w = 0 then ps_x seg
          else if align = TA_center then ps_x seg + (W - w) / 2
          else if align = TA_right \<or> align = TA_end then ps_x seg + (W - w)
          else ps_x seg)"
proof -
  from flow_layout_inv[OF assms(1)] obtain st where
    inv: "flow_inv node st" and lay: "lay = layout.truncate st" by blast
  with assms(2) have "ps_line seg < length (lineWidths lay)"
    by (simp add: flow_inv_def layout.defs)
  then show ?thesis
    by (simp add: alignedLeftOffset_def js_index_def Let_def w_def)
qed

theorem alignedLeftOffset_shift_witness:
  "map_sum id (snd \<circ> fst)
     (flow (example_node [''ab''] []) 100 16 0 (example_engine 16) Map.empty)
     = Inr \<lparr>lineWidths = [32], baselines = [16], lineSegmentNumber = [1],
            placedSegments = [\<lparr>ps_text = ''ab'', ps_x = 0, ps_y = 0, ps_width = 32,
               ps_line = 0, ps_lineIndex = 0, ps_isImage = False\<rparr>]\<rparr>
   \<and> alignedLeftOffset TA_center 100 [32]
        \<lparr>ps_text = ''ab'', ps_x = 0, ps_y = 0, ps_width = 32,
         ps_line = 0, ps_lineIndex = 0, ps_isImage = False\<rparr> = 0 + (100 - 32) / 2"
proof -
  let ?seg = "\<lparr>ps_text = ''ab'', ps_x = 0, ps_y = 0, ps_width = 32,
               ps_line = 0, ps_lineIndex = 0, ps_isImage = False\<rparr>"
  let ?lay = "\<lparr>lineWidths = [32], baselines = [16], lineSegmentNumber = [1],
            placedSegments = [?seg]\<rparr>"
  obtain sz c' where fl:
    "flow (example_node [''ab''] []) 100 16 0 (example_engine 16) Map.empty = Inr ((sz, ?lay), c')"
    by (simp add: flow_defs example_defs)
  have "?seg \<in> set (placedSegments ?lay)" by simp
  from alignedLeftOffset_shift[OF fl this, of TA_center 100] show ?thesis
    by (simp add: fl)
qed

text \<open>
  Claim C8 as stated shifts every centred segment by \<open>(W - w) / 2\<close>. On a line of width 0
  the guard \<open>lineWidths[line] && ...\<close> is falsy and the segment is not shifted.
\<close>

theorem zero_width_line_not_centred:
  "map_sum id (snd \<circ> fst)
     (flow zero_width_node 100 16 (- 16) (example_engine 16) Map.empty)
     = Inr \<lparr>lineWidths = [0], baselines = [16], lineSegmentNumber = [1],
            placedSegments = [\<lparr>ps_text = ''a'', ps_x = 0, ps_y = 0, ps_width = 0,
               ps_line = 0, ps_lineIndex = 0, ps_isImage = False\<rparr>]\<rparr>
   \<and> alignedLeftOffset TA_center 100 [0]
        \<lparr>ps_text = ''a'', ps_x = 0, ps_y = 0, ps_width = 0,
         ps_line = 0, ps_lineIndex = 0, ps_isImage = False\<rparr> = 0
   \<and> (0::num) + (100 - 0) / 2 \<noteq> 0"
  by (simp add: flow_defs example_defs alignedLeftOffset_def)


section \<open>The measure function\<close>

text \<open>
  Claim C9. When the measure function has returned a size for an available width and
  height, calling it again with the same width and height returns the same size and
  leaves every variable of the closure as the first call left it, the four arrays
  \<open>lineWidths\<close>, \<open>baselines\<close>, \<open>lineSegmentNumber\<close> and \<open>placedSegments\<close> among them. The first
  call only adds to the cache of the measurer, and the second call finds every width it
  needs there and leaves the cache as it is.
\<close>

theorem measureFunc_idempotent:
  assumes "measureFunc node cw ch ns c = Inr ((sz, ns1), c1)"
  shows "measureFunc node cw ch ns1 c1 = Inr ((sz, ns1), c1) \<and> c \<subseteq>\<^sub>m c1"
proof -
  have ffs: "textFit node = TF_multiline \<or> finalFontSize ns = finalFontSize ns1"
    using assms
    by (auto simp: measureFunc_def Let_def storeLayout_def split: if_splits sum.splits)
  from replays_measureFunc[of node cw ch ns] assms
  have "c \<subseteq>\<^sub>m c1" and "measureFunc node cw ch ns c1 = Inr ((sz, ns1), c1)"
    unfolding replays_def using map_le_refl by blast+
  with measureFunc_closure[OF ffs, of cw ch c1] show ?thesis by simp
qed

theorem measureFunc_idempotent_witness:
  "\<exists>sz ns1 c1.
        measureFunc (example_node [''ab '', ''c''] []) 40 100 example_state Map.empty
          = Inr ((sz, ns1), c1)
        \<and> sz = \<lparr>sz_width = 48, sz_height = 36\<rparr> \<and> lineWidths ns1 = [48, 16]
        \<and> measureFunc (example_node [''ab '', ''c''] []) 40 100 ns1 c1 = Inr ((sz, ns1), c1)"
proof -
  obtain sz ns1 c1 where m:
    "measureFunc (example_node [''ab '', ''c''] []) 40 100 example_state Map.empty
       = Inr ((sz, ns1), c1)"
    and v: "sz = \<lparr>sz_width = 48, sz_height = 36\<rparr>" "lineWidths ns1 = [48, 16]"
    by (simp add: measureFunc_def flow_defs example_defs reportSize_def storeLayout_def)
  from measureFunc_idempotent[OF m] m v show ?thesis by blast
qed

section \<open>The search for the font size\<close>

lemma flow_replay:
  assumes "flow node cw fs ls eng c = Inr (x, c1)"
  shows "c \<subseteq>\<^sub>m c1" and "c1 \<subseteq>\<^sub>m c' \<Longrightarrow> flow node cw fs ls eng c' = Inr (x, c')"
  using replays_flow[of node cw fs ls eng] assms unfolding replays_def by blast+

lemma fitsFrom_mono: "c \<subseteq>\<^sub>m c2 \<Longrightarrow> fitsFrom node cw ch c s \<Longrightarrow> fitsFrom node cw ch c2 s"
  unfolding fitsFrom_def using map_le_trans by blast

lemma exceedsFrom_mono:
  "c \<subseteq>\<^sub>m c2 \<Longrightarrow> exceedsFrom node cw ch c s \<Longrightarrow> exceedsFrom node cw ch c2 s"
  unfolding exceedsFrom_def using map_le_trans by blast

lemma fitLoop_result:
  "fitLoop node cw ch lo hi best c = Inr (b, c') \<Longrightarrow>
   lo \<in> \<int> \<Longrightarrow> hi \<le> hi0 \<Longrightarrow>
   (best = 10 \<and> lo = 10)
     \<or> (fitsFrom node cw ch c best \<and> lo = best + 1 \<and> 10 \<le> best \<and> best \<le> hi0) \<Longrightarrow>
   hi = hi0 \<or> (hi \<in> \<int> \<and> exceedsFrom node cw ch c (hi + 1) \<and> lo \<le> hi + 1) \<Longrightarrow>
   c \<subseteq>\<^sub>m c'
   \<and> ((fitsFrom node cw ch c' b \<and> 10 \<le> b \<and> b \<le> hi0 \<and> b \<in> \<int>
         \<and> (b + 1 \<le> hi0 \<longrightarrow> exceedsFrom node cw ch c' (b + 1)))
      \<or> (b = 10 \<and> (10 \<le> hi0 \<longrightarrow> exceedsFrom node cw ch c' 10)))"
proof (induction "nat (\<lfloor>hi\<rfloor> - \<lfloor>lo\<rfloor> + 1)" arbitrary: lo hi best c rule: less_induct)
  case less
  note res = less.prems(1) and loZ = less.prems(2)
    and hi0 = less.prems(3) and L = less.prems(4) and U = less.prems(5)
  from loZ obtain k where k: "lo = of_int k" by (auto elim: Ints_cases)
  show ?case
  proof (cases "lo \<le> hi")
    case False
    with res have b: "b = best" "c' = c" by (simp_all add: fitLoop.simps)
    from L show ?thesis
    proof
      assume l: "best = 10 \<and> lo = 10"
      have "exceedsFrom node cw ch c 10" if "10 \<le> hi0"
      proof -
        from U that False l obtain j where "hi = of_int j" "exceedsFrom node cw ch c (hi + 1)"
          "lo \<le> hi + 1" by (auto elim: Ints_cases)
        with False l have "hi = 9" by auto
        with \<open>exceedsFrom node cw ch c (hi + 1)\<close> show ?thesis by simp
      qed
      with l b show ?thesis by simp
    next
      assume l: "fitsFrom node cw ch c best \<and> lo = best + 1 \<and> 10 \<le> best \<and> best \<le> hi0"
      have bZ: "best \<in> \<int>"
        using l k by (metis Ints_1 Ints_diff Ints_of_int add_diff_cancel_right')
      have "exceedsFrom node cw ch c (best + 1)" if "best + 1 \<le> hi0"
      proof -
        from U that False l obtain j where "hi = of_int j" "exceedsFrom node cw ch c (hi + 1)"
          "lo \<le> hi + 1" by (auto elim: Ints_cases)
        moreover from bZ obtain n where "best = of_int n" by (auto elim: Ints_cases)
        ultimately have "hi = best" using False l by auto
        with \<open>exceedsFrom node cw ch c (hi + 1)\<close> show ?thesis by simp
      qed
      with l b bZ show ?thesis by simp
    qed
  next
    case True
    let ?mid = "real_of_int \<lfloor>(lo + hi) / 2\<rfloor>"
    have fl: "\<lfloor>lo\<rfloor> \<le> \<lfloor>(lo + hi) / 2\<rfloor>" "\<lfloor>(lo + hi) / 2\<rfloor> \<le> \<lfloor>hi\<rfloor>"
      using True by (auto intro!: floor_mono)
    have mid: "lo \<le> ?mid" "?mid \<le> hi" "?mid \<in> \<int>"
      using fl True k by (auto simp: le_floor_iff)
    have lo10: "10 \<le> lo" using L by auto
    from res True obtain sz lay c1 where
      f: "flow node cw ?mid (style_letterSpacing node) (getEngine node ?mid) c
            = Inr ((sz, lay), c1)"
      and rest: "(if sz_height sz \<le> ch then fitLoop node cw ch (?mid + 1) hi ?mid c1
                  else fitLoop node cw ch lo (?mid - 1) best c1) = Inr (b, c')"
      by (subst (asm) fitLoop.simps) (auto simp: Let_def split: sum.splits)
    note fr = flow_replay[OF f]
    have L1: "(best = 10 \<and> lo = 10)
       \<or> (fitsFrom node cw ch c1 best \<and> lo = best + 1 \<and> 10 \<le> best \<and> best \<le> hi0)"
      using L fitsFrom_mono[OF fr(1)] by blast
    have U1: "hi = hi0 \<or> (hi \<in> \<int> \<and> exceedsFrom node cw ch c1 (hi + 1) \<and> lo \<le> hi + 1)"
      using U exceedsFrom_mono[OF fr(1)] by blast
    show ?thesis
    proof (cases "sz_height sz \<le> ch")
      case fit: True
      with rest have r: "fitLoop node cw ch (?mid + 1) hi ?mid c1 = Inr (b, c')" by simp
      have "fitsFrom node cw ch c1 ?mid"
        unfolding fitsFrom_def using fr(2) fit by blast
      then have "c1 \<subseteq>\<^sub>m c'
         \<and> ((fitsFrom node cw ch c' b \<and> 10 \<le> b \<and> b \<le> hi0 \<and> b \<in> \<int>
               \<and> (b + 1 \<le> hi0 \<longrightarrow> exceedsFrom node cw ch c' (b + 1)))
            \<or> (b = 10 \<and> (10 \<le> hi0 \<longrightarrow> exceedsFrom node cw ch c' 10)))"
        using fl mid lo10 hi0 U1
        by (intro less.hyps[OF _ r]) auto
      with fr(1) show ?thesis using map_le_trans by blast
    next
      case nofit: False
      with rest have r: "fitLoop node cw ch lo (?mid - 1) best c1 = Inr (b, c')" by simp
      have "exceedsFrom node cw ch c1 ?mid"
        unfolding exceedsFrom_def using fr(2) nofit by (simp add: not_le)
      then have "c1 \<subseteq>\<^sub>m c'
         \<and> ((fitsFrom node cw ch c' b \<and> 10 \<le> b \<and> b \<le> hi0 \<and> b \<in> \<int>
               \<and> (b + 1 \<le> hi0 \<longrightarrow> exceedsFrom node cw ch c' (b + 1)))
            \<or> (b = 10 \<and> (10 \<le> hi0 \<longrightarrow> exceedsFrom node cw ch c' 10)))"
        using fl mid lo10 hi0 L1 loZ
        by (intro less.hyps[OF _ r]) auto
      with fr(1) show ?thesis using map_le_trans by blast
    qed
  qed
qed

lemma fitsFrom_height:
  assumes "fitsFrom node cw ch c s"
  shows "\<exists>h. measuredHeight node cw s c = Inr h \<and> h \<le> ch"
proof -
  from assms obtain sz lay where
    "flow node cw s (style_letterSpacing node) (getEngine node s) c = Inr ((sz, lay), c)"
    "sz_height sz \<le> ch"
    unfolding fitsFrom_def using map_le_refl[of c] by blast
  then show ?thesis by (simp add: measuredHeight_def)
qed

lemma exceedsFrom_height:
  assumes "exceedsFrom node cw ch c s"
  shows "\<exists>h. measuredHeight node cw s c = Inr h \<and> ch < h"
proof -
  from assms obtain sz lay where
    "flow node cw s (style_letterSpacing node) (getEngine node s) c = Inr ((sz, lay), c)"
    "ch < sz_height sz"
    unfolding exceedsFrom_def using map_le_refl[of c] by blast
  then show ?thesis by (simp add: measuredHeight_def)
qed

text \<open>
  Claim C7, as amended. With \<open>textFit = 'multiline'\<close> the font size is searched among the
  integers from 10 to \<open>maxFontSize || 120\<close>, and \<open>flow\<close> runs once more at the chosen size:
  the reported size is the width of that run, rounded up, and its height, and the arrays
  are those of that run. Either a candidate was accepted: then the chosen size is an
  integer of the range whose measured height is at most the available height, and the
  next size, when it is still in the range, was measured higher than the available
  height. Or no candidate was accepted: then the chosen size is the minimum 10, and when
  the range is not empty, 10 was measured higher than the available height. The measured
  heights are what \<open>flow\<close> reports with the cache that the measure function leaves, where
  every width the search has measured is stored.
\<close>

theorem measureFunc_multiline:
  assumes "textFit node = TF_multiline"
    and "measureFunc node cw ch ns c = Inr ((sz, ns'), c')"
  defines "b \<equiv> finalFontSize ns'"
  shows "(\<exists>szb. flow node cw b (style_letterSpacing node) (getEngine node b) c'
                    = Inr ((szb, layout.truncate ns'), c')
                \<and> sz = \<lparr>sz_width = of_int \<lceil>sz_width szb\<rceil>, sz_height = sz_height szb\<rparr>)
     \<and> (((\<exists>h. measuredHeight node cw b c' = Inr h \<and> h \<le> ch)
           \<and> 10 \<le> b \<and> b \<le> initialMaxFontSize node \<and> b \<in> \<int>
           \<and> (b + 1 \<le> initialMaxFontSize node \<longrightarrow>
                 (\<exists>h. measuredHeight node cw (b + 1) c' = Inr h \<and> ch < h)))
        \<or> (b = 10
           \<and> (10 \<le> initialMaxFontSize node \<longrightarrow>
                 (\<exists>h. measuredHeight node cw 10 c' = Inr h \<and> ch < h))))"
proof -
  from assms(1,2) obtain best c1 szb layb where
    fit: "fitLoop node cw ch 10 (initialMaxFontSize node) 10 c = Inr (best, c1)"
    and fl: "flow node cw best (style_letterSpacing node) (getEngine node best) c1
               = Inr ((szb, layb), c')"
    and sz: "sz = reportSize szb"
    and ns': "ns' = (storeLayout layb ns)\<lparr>finalFontSize := best,
                 currentEngine := getEngine node best, measuredTextSize := reportSize szb\<rparr>"
    by (auto simp: measureFunc_def Let_def split: sum.splits)
  have b: "b = best" by (simp add: b_def ns')
  have lay: "layout.truncate ns' = layb"
    by (cases layb) (simp add: ns' storeLayout_def layout.defs)
  note fr = flow_replay[OF fl]
  from fitLoop_result[OF fit, of "initialMaxFontSize node"]
  have "(fitsFrom node cw ch c1 best \<and> 10 \<le> best \<and> best \<le> initialMaxFontSize node
           \<and> best \<in> \<int>
           \<and> (best + 1 \<le> initialMaxFontSize node \<longrightarrow> exceedsFrom node cw ch c1 (best + 1)))
      \<or> (best = 10 \<and> (10 \<le> initialMaxFontSize node \<longrightarrow> exceedsFrom node cw ch c1 10))"
    by simp
  then have res:
    "(fitsFrom node cw ch c' best \<and> 10 \<le> best \<and> best \<le> initialMaxFontSize node
           \<and> best \<in> \<int>
           \<and> (best + 1 \<le> initialMaxFontSize node \<longrightarrow> exceedsFrom node cw ch c' (best + 1)))
      \<or> (best = 10 \<and> (10 \<le> initialMaxFontSize node \<longrightarrow> exceedsFrom node cw ch c' 10))"
    using fitsFrom_mono[OF fr(1)] exceedsFrom_mono[OF fr(1)] by blast
  have final: "flow node cw b (style_letterSpacing node) (getEngine node b) c'
                 = Inr ((szb, layout.truncate ns'), c')"
    using fr(2)[OF map_le_refl] by (simp add: b lay)
  then have "\<exists>szb. flow node cw b (style_letterSpacing node) (getEngine node b) c'
                    = Inr ((szb, layout.truncate ns'), c')
                \<and> sz = \<lparr>sz_width = of_int \<lceil>sz_width szb\<rceil>, sz_height = sz_height szb\<rparr>"
    using sz by (auto simp: reportSize_def)
  with res show ?thesis
    unfolding b using fitsFrom_height exceedsFrom_height by blast
qed

theorem measureFunc_multiline_witness:
  "textFit (fit_node 12) = TF_multiline
   \<and> map_sum id (finalFontSize \<circ> snd \<circ> fst)
       (measureFunc (fit_node 12) 100 13 example_state Map.empty) = Inr 11
   \<and> measuredHeight (fit_node 12) 100 11 Map.empty = Inr 13
   \<and> measuredHeight (fit_node 12) 100 12 Map.empty = Inr 14"
proof -
  have tf: "textFit (fit_node 12) = TF_multiline" by (simp add: example_defs)
  obtain sz ns' c' where m:
    "measureFunc (fit_node 12) 100 13 example_state Map.empty = Inr ((sz, ns'), c')"
    and v: "finalFontSize ns' = 11"
    by (simp add: measureFunc_def flow_defs example_defs reportSize_def storeLayout_def
        fitLoop.simps initialMaxFontSize_def)
  have h: "measuredHeight (fit_node 12) 100 11 Map.empty = Inr 13"
    "measuredHeight (fit_node 12) 100 12 Map.empty = Inr 14"
    by (simp_all add: measuredHeight_def flow_defs example_defs)
  from measureFunc_multiline[OF tf m] tf m v h show ?thesis by simp
qed

text \<open>
  Claim C7 as stated lets the chosen size always fit. When no size of the range fits, the
  search keeps its initial best size 10: here the available height is 5, the only
  candidate 10 is measured 12 high, and 10 is chosen and reported with height 12.
\<close>

theorem multiline_minimum_does_not_fit:
  "map_sum id (finalFontSize \<circ> snd \<circ> fst)
     (measureFunc (fit_node 10) 100 5 example_state Map.empty) = Inr 10
   \<and> map_sum id (sz_height \<circ> fst \<circ> fst)
     (measureFunc (fit_node 10) 100 5 example_state Map.empty) = Inr 12
   \<and> measuredHeight (fit_node 10) 100 10 Map.empty = Inr 12
   \<and> \<not> (12 :: num) \<le> 5"
  by (simp add: measureFunc_def measuredHeight_def flow_defs example_defs reportSize_def
      storeLayout_def fitLoop.simps initialMaxFontSize_def)

end
